theory Spec2Isabelle
  imports Main "HOL-Library.Word" "HOL-Library.Multiset"
begin

section \<open>Port-knocking engine: data model\<close>

text \<open>
  The repository holds two server programs and one client.  The hit-count server
  (\<^verbatim>\<open>KnockStep{Port, Count}\<close>) and the single-hit server (a plain list of ports) are both
  \<^verbatim>\<open>package main\<close> and use the same names; the single-hit server's names carry the
  suffix \<open>_single\<close> here.

  Go's \<^verbatim>\<open>int\<close> is the 64-bit two's-complement integer of the platforms the
  Dockerfile builds for, and its arithmetic wraps around.  The only arithmetic in the
  servers is \<^verbatim>\<open>HitCount++\<close> and \<^verbatim>\<open>StepIndex++\<close>.  \<^verbatim>\<open>HitCount\<close> is
  incremented without any bound, so it is a \<open>64 word\<close> and \<open>+ 1\<close> is the wrapping
  machine addition; \<^verbatim>\<open>Count\<close> is compared with it and has the same type.
  \<^verbatim>\<open>StepIndex\<close> is incremented only after the test
  \<^verbatim>\<open>StepIndex >= len(knockSequence)\<close> has failed, and a slice length fits an
  \<^verbatim>\<open>int\<close>, so that increment cannot wrap: it is an \<open>int\<close>, as are ports (compared
  for equality only) and times (nanoseconds on the monotonic clock).
\<close>

type_synonym go_int = "64 word"

record KnockStep =
  Port :: int
  Count :: go_int

record ClientState =
  StepIndex :: int
  HitCount :: go_int
  LastKnock :: int

type_synonym clients = "string \<rightharpoonup> ClientState"

text \<open>The package variables of the hit-count server.\<close>

definition knockSequence :: "KnockStep list" where
  "knockSequence =
     [\<lparr>Port = 7001, Count = 3\<rparr>, \<lparr>Port = 8002, Count = 1\<rparr>, \<lparr>Port = 9003, Count = 2\<rparr>]"

definition second :: int where
  "second = 1000000000"

definition timeout :: int where
  "timeout = 1 * second"

text \<open>
  \<^verbatim>\<open>processKnock\<close> returns nothing; what a call does besides updating the map is
  decided by the branch it takes, recorded here as its outcome:
  \<^item> \<open>Progressed\<close>: the port matched, \<^verbatim>\<open>HitCount != step.Count\<close> (only "Knock OK" is
    logged);
  \<^item> \<open>StepComplete\<close>: the port matched, the step was completed and it was not the last;
  \<^item> \<open>SequenceComplete\<close>: the last step was completed ("ACCESS GRANTED" is logged and
    "OK..." printed: the access grant);
  \<^item> \<open>Mismatch\<close>: the port differed ("Invalid knock" is logged);
  \<^item> \<open>Dropped\<close>: the "Extra security" test deleted the entry and returned.
  The only way the call can fail is the index expression
  \<^verbatim>\<open>knockSequence[state.StepIndex]\<close>, which panics when the index is out of range.
\<close>

datatype outcome = Progressed | StepComplete | SequenceComplete | Mismatch | Dropped

datatype error = IndexOutOfRange | ClosePanic

text \<open>\<^verbatim>\<open>&ClientState{}\<close>: every field has its zero value.\<close>

definition new_state :: ClientState where
  "new_state = \<lparr>StepIndex = 0, HitCount = 0, LastKnock = 0\<rparr>"

section \<open>The hit-count server\<close>

text \<open>
  \<^verbatim>\<open>processKnock(ip, port)\<close>, under the mutex.  The package variables
  \<^verbatim>\<open>knockSequence\<close>, \<^verbatim>\<open>timeout\<close> and \<^verbatim>\<open>clients\<close> are parameters, and so is the
  clock: \<open>now\<close> is what \<^verbatim>\<open>time.Since\<close> and \<^verbatim>\<open>time.Now\<close> read during the call.
  The map holds pointers, each to a struct of its own, so updating the struct through
  \<^verbatim>\<open>state\<close> is an update of the entry of \<open>ip\<close>.
\<close>

definition processKnock ::
  "KnockStep list \<Rightarrow> int \<Rightarrow> int \<Rightarrow> string \<Rightarrow> int \<Rightarrow> clients \<Rightarrow> error + (outcome \<times> clients)" where
  "processKnock knockSeq tmo now ip port cl =
     (let (state, cl1) =
            (case cl ip of
               None \<Rightarrow> (new_state, cl(ip \<mapsto> new_state))
             | Some st \<Rightarrow>
                 if now - LastKnock st > tmo then (new_state, cl(ip \<mapsto> new_state))
                 else (st, cl))
      in if StepIndex state \<ge> int (length knockSeq) then Inr (Dropped, cl1(ip := None))
         else if StepIndex state < 0 then Inl IndexOutOfRange
         else
           let step = knockSeq ! nat (StepIndex state) in
           if port = Port step then
             let state1 = state\<lparr>HitCount := HitCount state + 1, LastKnock := now\<rparr> in
             if HitCount state1 = Count step then
               let state2 = state1\<lparr>StepIndex := StepIndex state1 + 1, HitCount := 0\<rparr> in
               if StepIndex state2 = int (length knockSeq)
               then Inr (SequenceComplete, cl1(ip := None))
               else Inr (StepComplete, cl1(ip \<mapsto> state2))
             else Inr (Progressed, cl1(ip \<mapsto> state1))
           else Inr (Mismatch, cl1(ip := None)))"

text \<open>
  The accept loops call \<^verbatim>\<open>processKnock\<close> one call at a time (the mutex), each with
  the address and the port of one accepted connection.  A knock is the clock reading,
  the address and the port of one call; a panic ends the process.
\<close>

type_synonym knock = "int \<times> string \<times> int"

fun run_knocks ::
  "KnockStep list \<Rightarrow> int \<Rightarrow> knock list \<Rightarrow> clients \<Rightarrow> error + ((string \<times> outcome) list \<times> clients)" where
  "run_knocks knockSeq tmo [] cl = Inr ([], cl)"
| "run_knocks knockSeq tmo ((now, ip, port) # ks) cl =
     (case processKnock knockSeq tmo now ip port cl of
        Inl e \<Rightarrow> Inl e
      | Inr (out, cl') \<Rightarrow>
          (case run_knocks knockSeq tmo ks cl' of
             Inl e \<Rightarrow> Inl e
           | Inr (outs, cl'') \<Rightarrow> Inr ((ip, out) # outs, cl'')))"



section \<open>The single-hit server\<close>

record ClientState_single =
  Index :: int
  LastKnock_single :: int

type_synonym clients_single = "string \<rightharpoonup> ClientState_single"

definition knockSequence_single :: "int list" where
  "knockSequence_single = [7001, 8002, 9003]"

definition timeout_single :: int where
  "timeout_single = 5 * second"

definition new_state_single :: ClientState_single where
  "new_state_single = \<lparr>Index = 0, LastKnock_single = 0\<rparr>"

text \<open>
  The single-hit \<^verbatim>\<open>processKnock\<close>.  It has no test before
  \<^verbatim>\<open>knockSequence[state.Index]\<close>, which panics for an index out of range.  A matching
  knock that is not the last advances the index and logs nothing: outcome
  \<open>StepComplete\<close>.  \<^verbatim>\<open>Index++\<close> comes after that index expression, so the index
  is below the length of the slice and the increment cannot wrap.
\<close>

definition processKnock_single ::
  "int list \<Rightarrow> int \<Rightarrow> int \<Rightarrow> string \<Rightarrow> int \<Rightarrow> clients_single
     \<Rightarrow> error + (outcome \<times> clients_single)" where
  "processKnock_single knockSeq tmo now ip port cl =
     (let (state, cl1) =
            (case cl ip of
               None \<Rightarrow> (new_state_single, cl(ip \<mapsto> new_state_single))
             | Some st \<Rightarrow>
                 if now - LastKnock_single st > tmo
                 then (new_state_single, cl(ip \<mapsto> new_state_single))
                 else (st, cl))
      in if Index state < 0 \<or> Index state \<ge> int (length knockSeq) then Inl IndexOutOfRange
         else
           let expectedPort = knockSeq ! nat (Index state) in
           if port = expectedPort then
             let state1 = state\<lparr>Index := Index state + 1, LastKnock_single := now\<rparr> in
             if Index state1 = int (length knockSeq)
             then Inr (SequenceComplete, cl1(ip := None))
             else Inr (StepComplete, cl1(ip \<mapsto> state1))
           else Inr (Mismatch, cl1(ip := None)))"

fun run_knocks_single ::
  "int list \<Rightarrow> int \<Rightarrow> knock list \<Rightarrow> clients_single
     \<Rightarrow> error + ((string \<times> outcome) list \<times> clients_single)" where
  "run_knocks_single knockSeq tmo [] cl = Inr ([], cl)"
| "run_knocks_single knockSeq tmo ((now, ip, port) # ks) cl =
     (case processKnock_single knockSeq tmo now ip port cl of
        Inl e \<Rightarrow> Inl e
      | Inr (out, cl') \<Rightarrow>
          (case run_knocks_single knockSeq tmo ks cl' of
             Inl e \<Rightarrow> Inl e
           | Inr (outs, cl'') \<Rightarrow> Inr ((ip, out) # outs, cl'')))"

text \<open>
  The single-hit \<^verbatim>\<open>server()\<close> starts \<^verbatim>\<open>go handleKnock(port)\<close> for every element of
  the sequence, in a loop over the slice.
\<close>

definition server_single :: "int list \<Rightarrow> int multiset" where
  "server_single knockSeq = fold (\<lambda>port started. add_mset port started) knockSeq {#}"

section \<open>The client\<close>

text \<open>
  \<^verbatim>\<open>knock(host, port)\<close> dials with a timeout of 500 ms and, when the dial succeeded,
  closes the connection; an error of \<^verbatim>\<open>Close\<close> is a panic.  The network's answer to
  one attempt is one of three: the dial failed, the dial succeeded and the close
  succeeded, the dial succeeded and the close returned an error.  The client's
  behaviour is the list of its actions, and whether it ended in the panic.
\<close>

datatype net_result = DialFailed | DialOK_CloseOK | DialOK_CloseFailed

datatype action = Dial string int | CloseConn | Sleep int | Println

definition millisecond :: int where
  "millisecond = 1000000"

definition knock :: "string \<Rightarrow> int \<Rightarrow> net_result \<Rightarrow> action list \<times> error option" where
  "knock host port r =
     (case r of
        DialFailed \<Rightarrow> ([Dial host port], None)
      | DialOK_CloseOK \<Rightarrow> ([Dial host port, CloseConn], None)
      | DialOK_CloseFailed \<Rightarrow> ([Dial host port, CloseConn], Some ClosePanic))"

definition serverIP :: string where
  "serverIP = ''127.0.0.1''"

definition knockSeqPorts :: "int list" where
  "knockSeqPorts = [7001, 7001, 7001, 8002, 9003, 9003]"

text \<open>
  The loop of \<^verbatim>\<open>client()\<close> over the remaining ports; \<open>env n\<close> is the network's answer
  to attempt number \<open>n\<close>.
\<close>

fun client_loop ::
  "string \<Rightarrow> (nat \<Rightarrow> net_result) \<Rightarrow> nat \<Rightarrow> int list \<Rightarrow> action list \<times> error option" where
  "client_loop host env n [] = ([], None)"
| "client_loop host env n (port # ports) =
     (case knock host port (env n) of
        (acts, Some e) \<Rightarrow> (acts, Some e)
      | (acts, None) \<Rightarrow>
          (case client_loop host env (Suc n) ports of
             (rest, r) \<Rightarrow> (acts @ [Sleep (500 * millisecond)] @ rest, r)))"

definition client :: "(nat \<Rightarrow> net_result) \<Rightarrow> action list \<times> error option" where
  "client env =
     (case client_loop serverIP env 0 knockSeqPorts of
        (acts, None) \<Rightarrow> (acts @ [Println], None)
      | (acts, Some e) \<Rightarrow> (acts, Some e))"

section \<open>Notions used to state the properties\<close>

text \<open>The ports of the connection attempts among a list of actions, in order.\<close>

fun dialled :: "action list \<Rightarrow> int list" where
  "dialled [] = []"
| "dialled (Dial host port # acts) = port # dialled acts"
| "dialled (a # acts) = dialled acts"

text \<open>
  Networks: every dial is refused; every dial succeeds and every close fails; dials
  fail and succeed in turn, and every close succeeds.
\<close>

definition all_refused :: "nat \<Rightarrow> net_result" where
  "all_refused n = DialFailed"

definition close_fails :: "nat \<Rightarrow> net_result" where
  "close_fails n = DialOK_CloseFailed"

definition alternating :: "nat \<Rightarrow> net_result" where
  "alternating n = (if even n then DialFailed else DialOK_CloseOK)"

text \<open>A network where only the close of attempt number 1 (the second attempt) fails.\<close>

definition second_close_fails :: "nat \<Rightarrow> net_result" where
  "second_close_fails n = (if n = 1 then DialOK_CloseFailed else DialOK_CloseOK)"

text \<open>
  The knocks that match a sequence exactly: for every step in order, \<open>Count\<close> knocks on
  its port.  And the trace of outcomes to compare the server's with: for every step,
  \<open>Progressed\<close> for each hit but the last, then \<open>StepComplete\<close>, and
  \<open>SequenceComplete\<close> in its place for the last step.
\<close>

definition exact_knocks :: "KnockStep list \<Rightarrow> int list" where
  "exact_knocks knockSeq =
     concat (map (\<lambda>step. replicate (nat (sint (Count step))) (Port step)) knockSeq)"

fun exact_outcomes :: "KnockStep list \<Rightarrow> outcome list" where
  "exact_outcomes [] = []"
| "exact_outcomes [step] =
     replicate (nat (sint (Count step)) - 1) Progressed @ [SequenceComplete]"
| "exact_outcomes (step # steps) =
     replicate (nat (sint (Count step)) - 1) Progressed @ [StepComplete] @ exact_outcomes steps"

text \<open>
  Clock readings of successive knocks: \<open>within_timeout tmo t0 ts\<close> when the first of
  \<open>ts\<close> is at most \<open>tmo\<close> after \<open>t0\<close> and each next one at most \<open>tmo\<close> after the one
  before; \<open>gaps_within\<close> is the same with no reading before the first.
\<close>

fun within_timeout :: "int \<Rightarrow> int \<Rightarrow> int list \<Rightarrow> bool" where
  "within_timeout tmo t0 [] = True"
| "within_timeout tmo t0 (t # ts) = (t - t0 \<le> tmo \<and> within_timeout tmo t ts)"

fun gaps_within :: "int \<Rightarrow> int list \<Rightarrow> bool" where
  "gaps_within tmo [] = True"
| "gaps_within tmo (t # ts) = within_timeout tmo t ts"

text \<open>The knocks of one address: its ports, paired with the clock readings.\<close>

definition knocks_from :: "string \<Rightarrow> int list \<Rightarrow> int list \<Rightarrow> knock list" where
  "knocks_from ip ts ports = map (\<lambda>(t, port). (t, ip, port)) (zip ts ports)"

text \<open>
  The invariant of the tracker map of the hit-count server: every resident state is at
  a step of the sequence, with a hit count from 0 to that step's \<open>Count - 1\<close>.
\<close>

definition resident_ok :: "KnockStep list \<Rightarrow> clients \<Rightarrow> bool" where
  "resident_ok knockSeq cl =
     (\<forall>ip st. cl ip = Some st \<longrightarrow>
        0 \<le> StepIndex st \<and> StepIndex st < int (length knockSeq) \<and>
        0 \<le> sint (HitCount st) \<and>
        sint (HitCount st) \<le> sint (Count (knockSeq ! nat (StepIndex st))) - 1)"

text \<open>
  The single-hit server seen as a hit-count server: a port is a step with \<open>Count = 1\<close>,
  an index is a step index with no hits yet.
\<close>

definition with_count_1 :: "int list \<Rightarrow> KnockStep list" where
  "with_count_1 ports = map (\<lambda>port. \<lparr>Port = port, Count = 1\<rparr>) ports"

definition lift_state :: "ClientState_single \<Rightarrow> ClientState" where
  "lift_state st = \<lparr>StepIndex = Index st, HitCount = 0, LastKnock = LastKnock_single st\<rparr>"

definition lift_clients :: "clients_single \<Rightarrow> clients" where
  "lift_clients cl = (\<lambda>ip. map_option lift_state (cl ip))"

definition lift_result ::
  "error + ((string \<times> outcome) list \<times> clients_single)
     \<Rightarrow> error + ((string \<times> outcome) list \<times> clients)" where
  "lift_result r = (case r of Inl e \<Rightarrow> Inl e | Inr (outs, cl) \<Rightarrow> Inr (outs, lift_clients cl))"

definition resident_ok_single :: "int list \<Rightarrow> clients_single \<Rightarrow> bool" where
  "resident_ok_single ports cl =
     (\<forall>ip st. cl ip = Some st \<longrightarrow> 0 \<le> Index st \<and> Index st < int (length ports))"

text \<open>The precondition of the data model: every step requires at least one hit.\<close>

definition positive_counts :: "KnockStep list \<Rightarrow> bool" where
  "positive_counts knockSeq = list_all (\<lambda>step. 0 < sint (Count step)) knockSeq"


text \<open>Two addresses.\<close>

definition alice :: string where
  "alice = ''10.0.0.1''"

definition bob :: string where
  "bob = ''10.0.0.2''"

text \<open>
  A sequence whose step number \<open>k\<close> has a \<open>Count\<close> of zero or less: \<open>stuck_before k n\<close>
  holds of a map when no resident state is beyond step \<open>k\<close> and every hit count is
  from 0 to \<open>n\<close>.  And a sequence with such a step.
\<close>

definition stuck_before :: "nat \<Rightarrow> int \<Rightarrow> clients \<Rightarrow> bool" where
  "stuck_before k n cl =
     (\<forall>a st. cl a = Some st \<longrightarrow>
        0 \<le> StepIndex st \<and> StepIndex st \<le> int k \<and>
        0 \<le> sint (HitCount st) \<and> sint (HitCount st) \<le> n)"

definition zero_count_sequence :: "KnockStep list" where
  "zero_count_sequence = [\<lparr>Port = 7001, Count = 0\<rparr>, \<lparr>Port = 8002, Count = 1\<rparr>]"

text \<open>The knocks, and the outcomes, of one address among those of all.\<close>

definition knocks_of :: "string \<Rightarrow> knock list \<Rightarrow> knock list" where
  "knocks_of a ks = filter (\<lambda>(now, ip, port). ip = a) ks"

definition outcomes_of :: "string \<Rightarrow> (string \<times> outcome) list \<Rightarrow> (string \<times> outcome) list" where
  "outcomes_of a outs = filter (\<lambda>(ip, out). ip = a) outs"

section \<open>The hit counter: signed 64-bit arithmetic\<close>

lemma sint_succ:
  fixes h :: go_int
  assumes "sint h < bound" "bound \<le> 2 ^ 63 - 1"
  shows "sint (h + 1) = sint h + 1"
proof -
  have lo: "- (2 ^ 63) \<le> sint h" using sint_ge [of h] by simp
  have "sint (h + 1) = signed_take_bit 63 (sint h + 1)"
    by (simp add: sint_word_ariths)
  also have "\<dots> = sint h + 1"
    using lo assms by (intro signed_take_bit_int_eq_self) auto
  finally show ?thesis .
qed

lemma sint_le_max: "sint (c :: go_int) \<le> 2 ^ 63 - 1"
  using sint_lt [of c] by simp

lemma go_int_eqI:
  fixes v w :: go_int
  assumes "sint v = sint w"
  shows "v = w"
  using assms by (rule signed_word_eqI)

lemma sint_succ_below:
  fixes h c :: go_int
  assumes "sint h < sint c"
  shows "sint (h + 1) = sint h + 1"
  using assms sint_le_max [of c] by (rule sint_succ)

lemma hit_completes_iff:
  fixes h c :: go_int
  assumes "sint h < sint c"
  shows "h + 1 = c \<longleftrightarrow> sint h + 1 = sint c"
proof
  assume "h + 1 = c"
  then show "sint h + 1 = sint c" using sint_succ_below [OF assms] by simp
next
  assume "sint h + 1 = sint c"
  then have "sint (h + 1) = sint c" using sint_succ_below [OF assms] by simp
  then show "h + 1 = c" by (rule signed_word_eqI)
qed

section \<open>One call of the hit-count server, case by case\<close>

lemma processKnock_live:
  assumes "cl ip = Some st" "now - LastKnock st \<le> tmo" "0 \<le> StepIndex st" "StepIndex st < int (length knockSeq)"
  shows "processKnock knockSeq tmo now ip port cl =
     (let step = knockSeq ! nat (StepIndex st) in
      if port = Port step then
        if HitCount st + 1 = Count step then
          if StepIndex st + 1 = int (length knockSeq) then Inr (SequenceComplete, cl(ip := None))
          else Inr (StepComplete, cl(ip \<mapsto> \<lparr>StepIndex = StepIndex st + 1, HitCount = 0, LastKnock = now\<rparr>))
        else Inr (Progressed, cl(ip \<mapsto> \<lparr>StepIndex = StepIndex st, HitCount = HitCount st + 1, LastKnock = now\<rparr>))
      else Inr (Mismatch, cl(ip := None)))"
  using assms by (cases st) (simp add: processKnock_def Let_def)

lemma processKnock_absent:
  assumes "cl ip = None"
  shows "processKnock knockSeq tmo now ip port cl =
     (if knockSeq = [] then Inr (Dropped, cl)
      else if port = Port (knockSeq ! 0) then
        if 1 = Count (knockSeq ! 0) then
          if length knockSeq = 1 then Inr (SequenceComplete, cl)
          else Inr (StepComplete, cl(ip \<mapsto> \<lparr>StepIndex = 1, HitCount = 0, LastKnock = now\<rparr>))
        else Inr (Progressed, cl(ip \<mapsto> \<lparr>StepIndex = 0, HitCount = 1, LastKnock = now\<rparr>))
      else Inr (Mismatch, cl))"
proof -
  have "cl(ip := None) = cl" using assms by auto
  then show ?thesis using assms
    by (auto simp add: processKnock_def Let_def new_state_def)
qed

lemma processKnock_expired:
  assumes "cl ip = Some st" "now - LastKnock st > tmo"
  shows "processKnock knockSeq tmo now ip port cl = processKnock knockSeq tmo now ip port (cl(ip := None))"
  using assms by (simp add: processKnock_def Let_def)

lemma processKnock_frame:
  assumes "processKnock knockSeq tmo now ip port cl = Inr (out, cl')" "other \<noteq> ip"
  shows "cl' other = cl other"
  using assms by (auto simp add: processKnock_def Let_def split: option.splits if_splits)

lemma processKnock_guard:
  assumes "cl ip = Some st" "now - LastKnock st \<le> tmo" "StepIndex st \<ge> int (length knockSeq)"
  shows "processKnock knockSeq tmo now ip port cl = Inr (Dropped, cl(ip := None))"
  using assms by (simp add: processKnock_def Let_def)

section \<open>The invariant of the tracker map\<close>

lemma resident_ok_empty: "resident_ok knockSeq Map.empty"
  by (simp add: resident_ok_def)

lemma resident_ok_delete: "resident_ok knockSeq cl \<Longrightarrow> resident_ok knockSeq (cl(ip := None))"
  by (simp add: resident_ok_def)

lemma resident_ok_update:
  assumes "resident_ok knockSeq cl" "0 \<le> StepIndex st" "StepIndex st < int (length knockSeq)"
    "0 \<le> sint (HitCount st)" "sint (HitCount st) \<le> sint (Count (knockSeq ! nat (StepIndex st))) - 1"
  shows "resident_ok knockSeq (cl(ip \<mapsto> st))"
  using assms by (simp add: resident_ok_def)

lemma processKnock_absent_ok:
  assumes pos: "\<forall>step \<in> set knockSeq. 0 < sint (Count step)"
    and ok: "resident_ok knockSeq cl" and absent: "cl ip = None"
  shows "\<exists>out cl'. processKnock knockSeq tmo now ip port cl = Inr (out, cl') \<and> resident_ok knockSeq cl'"
proof (cases "knockSeq = []")
  case True
  then show ?thesis using ok absent by (simp add: processKnock_absent)
next
  case False
  then have c0: "0 < sint (Count (knockSeq ! 0))" using pos by simp
  have c1: "length knockSeq \<noteq> 1 \<Longrightarrow> 0 < sint (Count (knockSeq ! 1))"
    using pos False by (cases knockSeq; cases "tl knockSeq") auto
  have neq: "1 \<noteq> Count (knockSeq ! 0) \<Longrightarrow> 1 \<le> sint (Count (knockSeq ! 0)) - 1"
  proof -
    assume "1 \<noteq> Count (knockSeq ! 0)"
    then have "sint (Count (knockSeq ! 0)) \<noteq> sint (1 :: go_int)"
      using go_int_eqI [of "Count (knockSeq ! 0)" 1] by auto
    then show ?thesis using c0 by simp
  qed
  have len: "length knockSeq \<noteq> 1 \<Longrightarrow> 1 < int (length knockSeq)"
    using False by (cases knockSeq) auto
  show ?thesis
    using False ok absent c0 c1 neq len
    by (auto simp add: processKnock_absent intro!: resident_ok_update)
qed

lemma processKnock_live_ok:
  assumes pos: "\<forall>step \<in> set knockSeq. 0 < sint (Count step)"
    and ok: "resident_ok knockSeq cl" and res: "cl ip = Some st" and live: "now - LastKnock st \<le> tmo"
  shows "\<exists>out cl'. processKnock knockSeq tmo now ip port cl = Inr (out, cl') \<and> resident_ok knockSeq cl'"
proof -
  let ?step = "knockSeq ! nat (StepIndex st)"
  from ok res have i: "0 \<le> StepIndex st" "StepIndex st < int (length knockSeq)"
    and h: "0 \<le> sint (HitCount st)" "sint (HitCount st) < sint (Count ?step)"
    by (auto simp add: resident_ok_def)
  have s: "sint (HitCount st + 1) = sint (HitCount st) + 1"
    using h(2) by (rule sint_succ_below)
  have done_iff: "HitCount st + 1 = Count ?step \<longleftrightarrow> sint (HitCount st) + 1 = sint (Count ?step)"
    using h(2) by (rule hit_completes_iff)
  have nxt: "StepIndex st + 1 \<noteq> int (length knockSeq) \<Longrightarrow>
      0 < sint (Count (knockSeq ! nat (StepIndex st + 1)))"
    using pos i by (simp add: nat_add_distrib)
  show ?thesis
    using i h s done_iff nxt ok
    by (auto simp add: processKnock_live [where cl = cl and ip = ip, OF res live i(1) i(2)] Let_def
        intro!: resident_ok_update resident_ok_delete)
qed

lemma processKnock_ok:
  assumes pos: "\<forall>step \<in> set knockSeq. 0 < sint (Count step)"
    and ok: "resident_ok knockSeq cl"
  shows "\<exists>out cl'. processKnock knockSeq tmo now ip port cl = Inr (out, cl') \<and> resident_ok knockSeq cl'"
proof (cases "cl ip")
  case None
  then show ?thesis using pos ok by (rule processKnock_absent_ok [rotated 2])
next
  case (Some st)
  show ?thesis
  proof (cases "now - LastKnock st \<le> tmo")
    case True
    with pos ok Some show ?thesis by (rule processKnock_live_ok)
  next
    case False
    then have "processKnock knockSeq tmo now ip port cl = processKnock knockSeq tmo now ip port (cl(ip := None))"
      using Some by (simp add: processKnock_expired)
    moreover have "\<exists>out cl'. processKnock knockSeq tmo now ip port (cl(ip := None)) = Inr (out, cl') \<and> resident_ok knockSeq cl'"
      using pos resident_ok_delete [OF ok] by (rule processKnock_absent_ok) simp
    ultimately show ?thesis by simp
  qed
qed

lemma run_knocks_ok:
  assumes pos: "\<forall>step \<in> set knockSeq. 0 < sint (Count step)"
    and ok: "resident_ok knockSeq cl"
  shows "\<exists>outs cl'. run_knocks knockSeq tmo ks cl = Inr (outs, cl') \<and> resident_ok knockSeq cl'"
  using ok
proof (induction ks arbitrary: cl)
  case Nil
  then show ?case by simp
next
  case (Cons k ks)
  obtain now ip port where k: "k = (now, ip, port)" by (cases k)
  from processKnock_ok [OF pos Cons.prems] obtain out cl1
    where 1: "processKnock knockSeq tmo now ip port cl = Inr (out, cl1)" and 2: "resident_ok knockSeq cl1"
    by blast
  from Cons.IH [OF 2] obtain outs cl2
    where 3: "run_knocks knockSeq tmo ks cl1 = Inr (outs, cl2)" and 4: "resident_ok knockSeq cl2"
    by blast
  show ?case using 1 3 4 by (simp add: k)
qed

section \<open>Knocks of different addresses\<close>

lemma positive_countsD: "positive_counts knockSeq \<Longrightarrow> \<forall>step \<in> set knockSeq. 0 < sint (Count step)"
  by (simp add: positive_counts_def list_all_iff)

lemma processKnock_local_eq:
  assumes "cl2 ip = cl ip"
  shows "processKnock knockSeq tmo now ip port cl2 =
     (case processKnock knockSeq tmo now ip port cl of
        Inl e \<Rightarrow> Inl e
      | Inr (out, cl') \<Rightarrow> Inr (out, cl2(ip := cl' ip)))"
  using assms by (simp add: processKnock_def Let_def split: option.split)

lemma processKnock_local:
  assumes "processKnock knockSeq tmo now ip port cl = Inr (out, cl')" "cl2 ip = cl ip"
  shows "\<exists>cl2'. processKnock knockSeq tmo now ip port cl2 = Inr (out, cl2') \<and> cl2' ip = cl' ip"
  using processKnock_local_eq [where ?cl2.0 = cl2 and cl = cl and ip = ip and knockSeq = knockSeq
      and tmo = tmo and now = now and port = port] assms by simp

lemma run_knocks_projection:
  assumes "run_knocks knockSeq tmo ks cl = Inr (outs, cl')" "cl2 a = cl a"
  shows "\<exists>cl2'. run_knocks knockSeq tmo (knocks_of a ks) cl2 = Inr (outcomes_of a outs, cl2')
           \<and> cl2' a = cl' a"
  using assms
proof (induction ks arbitrary: cl cl2 outs)
  case Nil
  then show ?case by (simp add: knocks_of_def outcomes_of_def)
next
  case (Cons k ks)
  obtain now ip port where k: "k = (now, ip, port)" by (cases k)
  from Cons.prems(1) obtain out c1 outs1
    where step: "processKnock knockSeq tmo now ip port cl = Inr (out, c1)"
      and rest: "run_knocks knockSeq tmo ks c1 = Inr (outs1, cl')"
      and outs: "outs = (ip, out) # outs1"
    by (auto simp add: k split: sum.splits)
  show ?case
  proof (cases "ip = a")
    case True
    from processKnock_local [where ?cl2.0 = cl2, OF step] Cons.prems(2) True obtain c2
      where step2: "processKnock knockSeq tmo now ip port cl2 = Inr (out, c2)" and eq: "c2 a = c1 a"
      by auto
    from Cons.IH [where cl = c1 and ?cl2.0 = c2, OF rest eq] obtain cl2'
      where "run_knocks knockSeq tmo (knocks_of a ks) c2 = Inr (outcomes_of a outs1, cl2')" "cl2' a = cl' a"
      by blast
    then show ?thesis
      using True step2 by (simp add: k outs knocks_of_def outcomes_of_def)
  next
    case False
    then have "c1 a = cl a" using processKnock_frame [OF step, of a] by simp
    then have eq: "cl2 a = c1 a" using Cons.prems(2) by simp
    from Cons.IH [where cl = c1 and ?cl2.0 = cl2, OF rest eq] obtain cl2'
      where "run_knocks knockSeq tmo (knocks_of a ks) cl2 = Inr (outcomes_of a outs1, cl2')" "cl2' a = cl' a"
      by blast
    then show ?thesis
      using False by (simp add: k outs knocks_of_def outcomes_of_def)
  qed
qed

section \<open>Knocking a sequence exactly\<close>

lemma run_knocks_append:
  "run_knocks knockSeq tmo (ks1 @ ks2) cl =
     (case run_knocks knockSeq tmo ks1 cl of
        Inl e \<Rightarrow> Inl e
      | Inr (outs1, cl1) \<Rightarrow>
          (case run_knocks knockSeq tmo ks2 cl1 of
             Inl e \<Rightarrow> Inl e
           | Inr (outs2, cl2) \<Rightarrow> Inr (outs1 @ outs2, cl2)))"
proof (induction ks1 arbitrary: cl)
  case Nil
  show ?case by (simp split: sum.split)
next
  case (Cons k ks1)
  obtain now ip port where k: "k = (now, ip, port)" by (cases k)
  show ?case by (simp add: k Cons.IH split: sum.split prod.split)
qed

lemma knocks_from_Cons:
  "knocks_from ip (t # ts) (port # ports) = (t, ip, port) # knocks_from ip ts ports"
  by (simp add: knocks_from_def)

lemma knocks_from_Nil: "knocks_from ip [] ports = []"
  by (simp add: knocks_from_def)

lemma knocks_from_append:
  assumes "length ts1 = length ports1"
  shows "knocks_from ip (ts1 @ ts2) (ports1 @ ports2) =
           knocks_from ip ts1 ports1 @ knocks_from ip ts2 ports2"
  using assms by (simp add: knocks_from_def)

lemma within_timeout_append:
  "within_timeout tmo t0 (ts1 @ ts2) =
     (within_timeout tmo t0 ts1 \<and> within_timeout tmo (last (t0 # ts1)) ts2)"
  by (induction ts1 arbitrary: t0) auto

lemma hits_complete_step:
  assumes i: "0 \<le> i" "i < int (length knockSeq)"
    and step: "knockSeq ! nat i = step"
  shows "cl ip = Some \<lparr>StepIndex = i, HitCount = h, LastKnock = t0\<rparr> \<Longrightarrow>
     sint h < sint (Count step) \<Longrightarrow>
     length ts = nat (sint (Count step) - sint h) \<Longrightarrow>
     within_timeout tmo t0 ts \<Longrightarrow>
     run_knocks knockSeq tmo (knocks_from ip ts (replicate (length ts) (Port step))) cl =
       Inr (map (Pair ip) (replicate (length ts - 1) Progressed @
              [if i + 1 = int (length knockSeq) then SequenceComplete else StepComplete]),
            if i + 1 = int (length knockSeq) then cl(ip := None)
            else cl(ip \<mapsto> \<lparr>StepIndex = i + 1, HitCount = 0, LastKnock = last ts\<rparr>))"
proof (induction ts arbitrary: h t0 cl)
  case Nil
  then show ?case by simp
next
  case (Cons t ts)
  let ?st = "\<lparr>StepIndex = i, HitCount = h, LastKnock = t0\<rparr>"
  from Cons.prems(4) have live: "t - LastKnock ?st \<le> tmo" and rest: "within_timeout tmo t ts"
    by simp_all
  have one: "processKnock knockSeq tmo t ip (Port step) cl =
      (if h + 1 = Count step then
         if i + 1 = int (length knockSeq) then Inr (SequenceComplete, cl(ip := None))
         else Inr (StepComplete, cl(ip \<mapsto> \<lparr>StepIndex = i + 1, HitCount = 0, LastKnock = t\<rparr>))
       else Inr (Progressed, cl(ip \<mapsto> \<lparr>StepIndex = i, HitCount = h + 1, LastKnock = t\<rparr>)))"
    using processKnock_live [where cl = cl and ip = ip and st = ?st, OF Cons.prems(1) live] i step
    by simp
  have fin: "h + 1 = Count step \<longleftrightarrow> sint h + 1 = sint (Count step)"
    using Cons.prems(2) by (rule hit_completes_iff)
  show ?case
  proof (cases ts)
    case Nil
    then have "h + 1 = Count step" using Cons.prems(3) fin by simp
    then show ?thesis using Nil one by (auto simp add: knocks_from_Cons knocks_from_Nil)
  next
    case (Cons t' ts')
    then have more: "h + 1 \<noteq> Count step" using Cons.prems(3) fin by auto
    let ?cl1 = "cl(ip \<mapsto> \<lparr>StepIndex = i, HitCount = h + 1, LastKnock = t\<rparr>)"
    have s: "sint (h + 1) = sint h + 1" using Cons.prems(2) by (rule sint_succ_below)
    have "run_knocks knockSeq tmo (knocks_from ip ts (replicate (length ts) (Port step))) ?cl1 =
       Inr (map (Pair ip) (replicate (length ts - 1) Progressed @
              [if i + 1 = int (length knockSeq) then SequenceComplete else StepComplete]),
            if i + 1 = int (length knockSeq) then ?cl1(ip := None)
            else ?cl1(ip \<mapsto> \<lparr>StepIndex = i + 1, HitCount = 0, LastKnock = last ts\<rparr>))"
    proof (rule Cons.IH)
      show "?cl1 ip = Some \<lparr>StepIndex = i, HitCount = h + 1, LastKnock = t\<rparr>" by simp
      show "sint (h + 1) < sint (Count step)" using more fin s Cons.prems(2) by simp
      show "length ts = nat (sint (Count step) - sint (h + 1))" using Cons.prems(3) s by simp
      show "within_timeout tmo t ts" by (rule rest)
    qed
    then show ?thesis
      using one more Cons by (auto simp add: knocks_from_Cons)
  qed
qed


lemma exact_knocks_Cons:
  "exact_knocks (step # steps) =
     replicate (nat (sint (Count step))) (Port step) @ exact_knocks steps"
  by (simp add: exact_knocks_def)

lemma exact_knocks_Nil: "exact_knocks [] = []"
  by (simp add: exact_knocks_def)

lemma exact_outcomes_Cons:
  "steps \<noteq> [] \<Longrightarrow> exact_outcomes (step # steps) =
     replicate (nat (sint (Count step)) - 1) Progressed @ [StepComplete] @ exact_outcomes steps"
  by (cases steps) simp_all

lemma exact_from_step:
  "cl ip = Some \<lparr>StepIndex = int (length pre), HitCount = 0, LastKnock = t0\<rparr> \<Longrightarrow>
   rest \<noteq> [] \<Longrightarrow> positive_counts rest \<Longrightarrow>
   length ts = length (exact_knocks rest) \<Longrightarrow>
   within_timeout tmo t0 ts \<Longrightarrow>
   run_knocks (pre @ rest) tmo (knocks_from ip ts (exact_knocks rest)) cl =
     Inr (map (Pair ip) (exact_outcomes rest), cl(ip := None))"
proof (induction rest arbitrary: pre cl t0 ts)
  case Nil
  then show ?case by simp
next
  case (Cons step rest)
  let ?seq = "pre @ step # rest"
  let ?n = "nat (sint (Count step))"
  let ?i = "int (length pre)"
  let ?ts1 = "take ?n ts" and ?ts2 = "drop ?n ts"
  from Cons.prems(3) have pos: "0 < sint (Count step)" and pos_rest: "positive_counts rest"
    by (simp_all add: positive_counts_def)
  from Cons.prems(4) have len: "length ts = ?n + length (exact_knocks rest)"
    by (simp add: exact_knocks_Cons)
  then have len1: "length ?ts1 = ?n" by simp
  have n_pos: "0 < ?n" using pos by simp
  then have ts1_ne: "?ts1 \<noteq> []" using len1 by auto
  have knocks_split: "knocks_from ip ts (exact_knocks (step # rest)) =
      knocks_from ip ?ts1 (replicate (length ?ts1) (Port step)) @
      knocks_from ip ?ts2 (exact_knocks rest)"
    using knocks_from_append [where ?ts1.0 = ?ts1 and ?ts2.0 = ?ts2
        and ?ports1.0 = "replicate ?n (Port step)" and ?ports2.0 = "exact_knocks rest" and ip = ip]
      len1
    by (simp add: exact_knocks_Cons)
  from Cons.prems(5) have within: "within_timeout tmo t0 ?ts1"
      "within_timeout tmo (last (t0 # ?ts1)) ?ts2"
    using within_timeout_append [of tmo t0 ?ts1 ?ts2] by simp_all
  have first: "run_knocks ?seq tmo (knocks_from ip ?ts1 (replicate (length ?ts1) (Port step))) cl =
       Inr (map (Pair ip) (replicate (length ?ts1 - 1) Progressed @
              [if ?i + 1 = int (length ?seq) then SequenceComplete else StepComplete]),
            if ?i + 1 = int (length ?seq) then cl(ip := None)
            else cl(ip \<mapsto> \<lparr>StepIndex = ?i + 1, HitCount = 0, LastKnock = last ?ts1\<rparr>))"
  proof (rule hits_complete_step [where step = step and h = 0 and ?t0.0 = t0])
    show "0 \<le> ?i" by simp
    show "?i < int (length ?seq)" by simp
    show "?seq ! nat ?i = step" by simp
    show "cl ip = Some \<lparr>StepIndex = ?i, HitCount = 0, LastKnock = t0\<rparr>" by (rule Cons.prems(1))
    show "sint (0 :: go_int) < sint (Count step)" using pos by simp
    show "length ?ts1 = nat (sint (Count step) - sint (0 :: go_int))" using len1 by simp
    show "within_timeout tmo t0 ?ts1" by (rule within(1))
  qed
  have composed: "run_knocks ?seq tmo (knocks_from ip ts (exact_knocks (step # rest))) cl =
      (case run_knocks ?seq tmo (knocks_from ip ?ts1 (replicate (length ?ts1) (Port step))) cl of
         Inl e \<Rightarrow> Inl e
       | Inr (outs1, cl1) \<Rightarrow>
           (case run_knocks ?seq tmo (knocks_from ip ?ts2 (exact_knocks rest)) cl1 of
              Inl e \<Rightarrow> Inl e
            | Inr (outs2, cl2) \<Rightarrow> Inr (outs1 @ outs2, cl2)))"
    by (simp only: knocks_split run_knocks_append)
  show ?case
  proof (cases "rest = []")
    case True
    then have last_step: "?i + 1 = int (length ?seq)" by simp
    have r1: "run_knocks ?seq tmo (knocks_from ip ?ts1 (replicate (length ?ts1) (Port step))) cl =
        Inr (map (Pair ip) (exact_outcomes (step # rest)), cl(ip := None))"
      using first last_step len1 True by simp
    have "?ts2 = []" using len True by (simp add: exact_knocks_Nil)
    then have r2: "run_knocks ?seq tmo (knocks_from ip ?ts2 (exact_knocks rest)) (cl(ip := None)) =
        Inr ([], cl(ip := None))"
      by (simp add: knocks_from_Nil)
    show ?thesis
      by (simp only: composed r1 r2 sum.case prod.case append_Nil2)
  next
    case False
    let ?cl1 = "cl(ip \<mapsto> \<lparr>StepIndex = ?i + 1, HitCount = 0, LastKnock = last ?ts1\<rparr>)"
    have not_last: "?i + 1 \<noteq> int (length ?seq)" using False by simp
    have r1: "run_knocks ?seq tmo (knocks_from ip ?ts1 (replicate (length ?ts1) (Port step))) cl =
        Inr (map (Pair ip) (replicate (?n - 1) Progressed @ [StepComplete]), ?cl1)"
      using first not_last len1 by simp
    have "run_knocks ((pre @ [step]) @ rest) tmo (knocks_from ip ?ts2 (exact_knocks rest)) ?cl1 =
        Inr (map (Pair ip) (exact_outcomes rest), ?cl1(ip := None))"
    proof (rule Cons.IH [where ?t0.0 = "last ?ts1"])
      show "?cl1 ip = Some \<lparr>StepIndex = int (length (pre @ [step])), HitCount = 0,
          LastKnock = last ?ts1\<rparr>" by simp
      show "rest \<noteq> []" by (rule False)
      show "positive_counts rest" by (rule pos_rest)
      show "length ?ts2 = length (exact_knocks rest)" using len by simp
      show "within_timeout tmo (last ?ts1) ?ts2" using within(2) ts1_ne by simp
    qed
    then have r2: "run_knocks ?seq tmo (knocks_from ip ?ts2 (exact_knocks rest)) ?cl1 =
        Inr (map (Pair ip) (exact_outcomes rest), cl(ip := None))"
      by simp
    have outs: "map (Pair ip) (replicate (?n - 1) Progressed @ [StepComplete]) @
        map (Pair ip) (exact_outcomes rest) = map (Pair ip) (exact_outcomes (step # rest))"
      by (simp add: exact_outcomes_Cons [OF False])
    show ?thesis
      by (simp only: composed r1 r2 sum.case prod.case outs)
  qed
qed

lemma processKnock_absent_as_new:
  assumes "cl ip = None" and "now - t0 \<le> tmo"
  shows "processKnock knockSeq tmo now ip port cl =
         processKnock knockSeq tmo now ip port
           (cl(ip \<mapsto> \<lparr>StepIndex = 0, HitCount = 0, LastKnock = t0\<rparr>))"
proof -
  have same: "cl(ip := None) = cl" using assms(1) by auto
  show ?thesis
    using assms same by (simp add: processKnock_def new_state_def Let_def)
qed

lemma exact_knocks_nonempty:
  assumes "knockSeq \<noteq> []" "positive_counts knockSeq"
  shows "exact_knocks knockSeq \<noteq> []"
  using assms by (cases knockSeq) (auto simp add: exact_knocks_Cons positive_counts_def)

lemma exact_outcomes_one_grant:
  "knockSeq \<noteq> [] \<Longrightarrow>
     count_list (exact_outcomes knockSeq) SequenceComplete = 1 \<and>
     last (exact_outcomes knockSeq) = SequenceComplete"
  by (induction knockSeq rule: exact_outcomes.induct) (auto simp add: count_list_append)

lemma exact_run_from_absent:
  assumes ne: "knockSeq \<noteq> []" and pos: "positive_counts knockSeq"
    and absent: "cl ip = None"
    and len: "length ts = length (exact_knocks knockSeq)"
    and gaps: "gaps_within tmo ts"
  shows "run_knocks knockSeq tmo (knocks_from ip ts (exact_knocks knockSeq)) cl =
           Inr (map (Pair ip) (exact_outcomes knockSeq), cl)"
proof -
  from exact_knocks_nonempty [OF ne pos] len obtain t ts' port ports
    where ts: "ts = t # ts'" and ports: "exact_knocks knockSeq = port # ports"
    by (cases ts; cases "exact_knocks knockSeq") auto
  let ?new = "\<lparr>StepIndex = 0, HitCount = 0, LastKnock = t - tmo\<rparr>"
  let ?cl0 = "cl(ip \<mapsto> ?new)"
  have same: "cl(ip := None) = cl" using absent by auto
  have start: "run_knocks knockSeq tmo (knocks_from ip ts (exact_knocks knockSeq)) cl =
      run_knocks knockSeq tmo (knocks_from ip ts (exact_knocks knockSeq)) ?cl0"
    using processKnock_absent_as_new [where cl = cl and ip = ip and now = t and ?t0.0 = "t - tmo"
        and tmo = tmo and knockSeq = knockSeq and port = port] absent
    by (simp add: ts ports knocks_from_Cons)
  have "run_knocks ([] @ knockSeq) tmo (knocks_from ip ts (exact_knocks knockSeq)) ?cl0 =
      Inr (map (Pair ip) (exact_outcomes knockSeq), ?cl0(ip := None))"
  proof (rule exact_from_step [where ?t0.0 = "t - tmo"])
    show "?cl0 ip = Some \<lparr>StepIndex = int (length ([] :: KnockStep list)), HitCount = 0,
        LastKnock = t - tmo\<rparr>" by simp
    show "knockSeq \<noteq> []" by (rule ne)
    show "positive_counts knockSeq" by (rule pos)
    show "length ts = length (exact_knocks knockSeq)" by (rule len)
    show "within_timeout tmo (t - tmo) ts" using gaps by (simp add: ts)
  qed
  then show ?thesis using start same by simp
qed

section \<open>The single-hit server inside the hit-count server\<close>

lemma lift_clients_update: "lift_clients (cl(ip \<mapsto> st)) = (lift_clients cl)(ip \<mapsto> lift_state st)"
  by (rule ext) (simp add: lift_clients_def)

lemma lift_clients_delete: "lift_clients (cl(ip := None)) = (lift_clients cl)(ip := None)"
  by (rule ext) (simp add: lift_clients_def)

lemma lift_clients_empty: "lift_clients Map.empty = Map.empty"
  by (rule ext) (simp add: lift_clients_def)

lemma lift_clients_apply: "lift_clients cl ip = map_option lift_state (cl ip)"
  by (simp add: lift_clients_def)

lemma with_count_1_nth:
  "n < length ports \<Longrightarrow> with_count_1 ports ! n = \<lparr>Port = ports ! n, Count = 1\<rparr>"
  by (simp add: with_count_1_def)

lemma length_with_count_1: "length (with_count_1 ports) = length ports"
  by (simp add: with_count_1_def)


lemma nat_index_in_range:
  "0 \<le> i \<Longrightarrow> i < int (length ports) \<Longrightarrow> nat i < length ports"
  by simp

lemma processKnock_single_refines:
  assumes ne: "ports \<noteq> []" and ok: "resident_ok_single ports cl"
  shows "processKnock (with_count_1 ports) tmo now ip port (lift_clients cl) =
     (case processKnock_single ports tmo now ip port cl of
        Inl e \<Rightarrow> Inl e
      | Inr (out, cl') \<Rightarrow> Inr (out, lift_clients cl'))"
proof -
  have len: "0 < length ports" using ne by simp
  have fresh: "processKnock (with_count_1 ports) tmo now ip port
        ((lift_clients cl)(ip := None)) =
     (case processKnock_single ports tmo now ip port (cl(ip := None)) of
        Inl e \<Rightarrow> Inl e
      | Inr (out, cl') \<Rightarrow> Inr (out, lift_clients cl'))"
    using len with_count_1_nth [of 0 ports]
    by (simp add: processKnock_def processKnock_single_def Let_def new_state_def
        new_state_single_def length_with_count_1 lift_clients_update lift_clients_delete
        lift_state_def)
  show ?thesis
  proof (cases "cl ip")
    case None
    then have "cl(ip := None) = cl" by auto
    moreover have "(lift_clients cl)(ip := None) = lift_clients cl"
      using None by (auto simp add: lift_clients_def)
    ultimately show ?thesis using fresh by simp
  next
    case (Some st)
    with ok have idx: "0 \<le> Index st" "Index st < int (length ports)"
      by (auto simp add: resident_ok_single_def)
    have lifted: "lift_clients cl ip = Some (lift_state st)"
      using Some by (simp add: lift_clients_apply)
    show ?thesis
    proof (cases "now - LastKnock_single st > tmo")
      case True
      then have "processKnock_single ports tmo now ip port cl =
          processKnock_single ports tmo now ip port (cl(ip := None))"
        using Some by (simp add: processKnock_single_def Let_def)
      moreover have "processKnock (with_count_1 ports) tmo now ip port (lift_clients cl) =
          processKnock (with_count_1 ports) tmo now ip port ((lift_clients cl)(ip := None))"
        using True lifted processKnock_expired [where cl = "lift_clients cl" and ip = ip
            and st = "lift_state st" and now = now and tmo = tmo]
        by (simp add: lift_state_def)
      ultimately show ?thesis using fresh by simp
    next
      case False
      show ?thesis
        using False Some lifted idx with_count_1_nth [OF nat_index_in_range [OF idx]]
        by (simp add: processKnock_def processKnock_single_def Let_def
            length_with_count_1 lift_clients_update lift_clients_delete lift_state_def)
    qed
  qed
qed

lemma resident_ok_single_delete:
  "resident_ok_single ports cl \<Longrightarrow> resident_ok_single ports (cl(ip := None))"
  by (simp add: resident_ok_single_def)

lemma resident_ok_single_update:
  "resident_ok_single ports cl \<Longrightarrow> 0 \<le> Index st \<Longrightarrow> Index st < int (length ports) \<Longrightarrow>
     resident_ok_single ports (cl(ip \<mapsto> st))"
  by (simp add: resident_ok_single_def)

lemma processKnock_single_expired:
  assumes "cl ip = Some st" "now - LastKnock_single st > tmo"
  shows "processKnock_single ports tmo now ip port cl =
         processKnock_single ports tmo now ip port (cl(ip := None))"
  using assms by (simp add: processKnock_single_def Let_def)

lemma processKnock_single_absent_ok:
  assumes ne: "ports \<noteq> []" and ok: "resident_ok_single ports cl" and absent: "cl ip = None"
  shows "\<exists>out cl'. processKnock_single ports tmo now ip port cl = Inr (out, cl') \<and>
           resident_ok_single ports cl'"
proof -
  have len: "0 < length ports" "length ports \<noteq> Suc 0 \<Longrightarrow> 1 < int (length ports)"
    using ne by (cases ports; simp)+
  show ?thesis
    using len ok absent
    by (auto simp add: processKnock_single_def Let_def new_state_single_def
        intro!: resident_ok_single_update resident_ok_single_delete)
qed

lemma processKnock_single_live_ok:
  assumes ok: "resident_ok_single ports cl" and res: "cl ip = Some st"
    and live: "\<not> now - LastKnock_single st > tmo"
  shows "\<exists>out cl'. processKnock_single ports tmo now ip port cl = Inr (out, cl') \<and>
           resident_ok_single ports cl'"
proof -
  from ok res have idx: "0 \<le> Index st" "Index st < int (length ports)"
    by (auto simp add: resident_ok_single_def)
  have nxt: "Index st + 1 \<noteq> int (length ports) \<Longrightarrow> Index st + 1 < int (length ports)"
    using idx by simp
  have step: "processKnock_single ports tmo now ip port cl =
      (if port = ports ! nat (Index st) then
         if Index st + 1 = int (length ports) then Inr (SequenceComplete, cl(ip := None))
         else Inr (StepComplete, cl(ip \<mapsto> st\<lparr>Index := Index st + 1, LastKnock_single := now\<rparr>))
       else Inr (Mismatch, cl(ip := None)))"
    using res live idx by (simp add: processKnock_single_def Let_def)
  show ?thesis
    using ok idx nxt
    by (auto simp add: step intro!: resident_ok_single_update resident_ok_single_delete)
qed

lemma processKnock_single_ok:
  assumes ne: "ports \<noteq> []" and ok: "resident_ok_single ports cl"
  shows "\<exists>out cl'. processKnock_single ports tmo now ip port cl = Inr (out, cl') \<and>
           resident_ok_single ports cl'"
proof (cases "cl ip")
  case None
  with ne ok show ?thesis by (rule processKnock_single_absent_ok)
next
  case (Some st)
  show ?thesis
  proof (cases "now - LastKnock_single st > tmo")
    case True
    have "\<exists>out cl'. processKnock_single ports tmo now ip port (cl(ip := None)) = Inr (out, cl') \<and>
           resident_ok_single ports cl'"
      using ne resident_ok_single_delete [OF ok] by (rule processKnock_single_absent_ok) simp
    then show ?thesis
      using processKnock_single_expired [where cl = cl and ip = ip, OF Some True] by simp
  next
    case False
    with ok Some show ?thesis by (rule processKnock_single_live_ok)
  qed
qed

lemma run_knocks_single_refines:
  assumes ne: "ports \<noteq> []"
  shows "resident_ok_single ports cl \<Longrightarrow>
     run_knocks (with_count_1 ports) tmo ks (lift_clients cl) =
       lift_result (run_knocks_single ports tmo ks cl) \<and>
     (\<exists>outs cl'. run_knocks_single ports tmo ks cl = Inr (outs, cl') \<and>
        resident_ok_single ports cl')"
proof (induction ks arbitrary: cl)
  case Nil
  then show ?case by (simp add: lift_result_def)
next
  case (Cons k ks)
  obtain now ip port where k: "k = (now, ip, port)" by (cases k)
  from processKnock_single_ok [OF ne Cons.prems] obtain out cl1
    where 1: "processKnock_single ports tmo now ip port cl = Inr (out, cl1)"
      and ok1: "resident_ok_single ports cl1"
    by blast
  have 2: "processKnock (with_count_1 ports) tmo now ip port (lift_clients cl) =
      Inr (out, lift_clients cl1)"
    using processKnock_single_refines [OF ne Cons.prems, of tmo now ip port] 1 by simp
  from Cons.IH [OF ok1] obtain outs cl2
    where 3: "run_knocks (with_count_1 ports) tmo ks (lift_clients cl1) =
        lift_result (run_knocks_single ports tmo ks cl1)"
      and 4: "run_knocks_single ports tmo ks cl1 = Inr (outs, cl2)"
      and ok2: "resident_ok_single ports cl2"
    by blast
  show ?case using 1 2 3 4 ok2 by (simp add: k lift_result_def)
qed

section \<open>The configured sequence\<close>

lemma alice_bob: "alice \<noteq> bob" "bob \<noteq> alice"
  by (simp_all add: alice_def bob_def)

lemma knockSequence_facts:
  "length knockSequence = 3" "knockSequence \<noteq> []"
  "knockSequence ! 0 = \<lparr>Port = 7001, Count = 3\<rparr>"
  "knockSequence ! 1 = \<lparr>Port = 8002, Count = 1\<rparr>"
  "knockSequence ! 2 = \<lparr>Port = 9003, Count = 2\<rparr>"
  "knockSequence ! Suc 0 = \<lparr>Port = 8002, Count = 1\<rparr>"
  by (simp_all add: knockSequence_def)

lemma positive_counts_knockSequence: "positive_counts knockSequence"
  by (simp add: positive_counts_def knockSequence_def)

section \<open>Mismatch, timeout and the defensive test\<close>

text \<open>
  Claim C2.  Whatever state an address has reached, as long as it is resident, has not
  timed out and stands at a step of the sequence: a knock on a port other than that
  step's port makes \<^verbatim>\<open>processKnock\<close> return normally (no panic) with outcome
  \<open>Mismatch\<close>, and the entry of the address is deleted.  The address's next knock,
  at any time \<open>now'\<close> and on any port \<open>port'\<close>, is then evaluated from
  \<open>StepIndex = 0\<close>, \<open>HitCount = 0\<close>: on the first step's port it counts as hit number
  1 of step 0, and nothing of the old state is left.
\<close>

theorem mismatch_clears_all_progress:
  assumes "cl ip = Some st" and "now - LastKnock st \<le> tmo"
    and "0 \<le> StepIndex st" and "StepIndex st < int (length knockSeq)"
    and "port \<noteq> Port (knockSeq ! nat (StepIndex st))"
  shows "processKnock knockSeq tmo now ip port cl = Inr (Mismatch, cl(ip := None)) \<and>
    processKnock knockSeq tmo now' ip port' (cl(ip := None)) =
      (if port' = Port (knockSeq ! 0) then
         if 1 = Count (knockSeq ! 0) then
           if length knockSeq = 1 then Inr (SequenceComplete, cl(ip := None))
           else Inr (StepComplete, cl(ip \<mapsto> \<lparr>StepIndex = 1, HitCount = 0, LastKnock = now'\<rparr>))
         else Inr (Progressed, cl(ip \<mapsto> \<lparr>StepIndex = 0, HitCount = 1, LastKnock = now'\<rparr>))
       else Inr (Mismatch, cl(ip := None)))"
proof
  show "processKnock knockSeq tmo now ip port cl = Inr (Mismatch, cl(ip := None))"
    using assms by (simp add: processKnock_live [where st = st])
next
  have "knockSeq \<noteq> []" using assms(3,4) by auto
  then show "processKnock knockSeq tmo now' ip port' (cl(ip := None)) =
      (if port' = Port (knockSeq ! 0) then
         if 1 = Count (knockSeq ! 0) then
           if length knockSeq = 1 then Inr (SequenceComplete, cl(ip := None))
           else Inr (StepComplete, cl(ip \<mapsto> \<lparr>StepIndex = 1, HitCount = 0, LastKnock = now'\<rparr>))
         else Inr (Progressed, cl(ip \<mapsto> \<lparr>StepIndex = 0, HitCount = 1, LastKnock = now'\<rparr>))
       else Inr (Mismatch, cl(ip := None)))"
    by (simp add: processKnock_absent)
qed

theorem mismatch_clears_all_progress_witness:
  "processKnock knockSequence timeout 2 alice 9003
      [alice \<mapsto> \<lparr>StepIndex = 0, HitCount = 2, LastKnock = 1\<rparr>] = Inr (Mismatch, Map.empty) \<and>
   processKnock knockSequence timeout 3 alice 7001 Map.empty =
      Inr (Progressed, [alice \<mapsto> \<lparr>StepIndex = 0, HitCount = 1, LastKnock = 3\<rparr>])"
  using mismatch_clears_all_progress [where cl = "[alice \<mapsto> \<lparr>StepIndex = 0, HitCount = 2, LastKnock = 1\<rparr>]"
      and ip = alice and st = "\<lparr>StepIndex = 0, HitCount = 2, LastKnock = 1\<rparr>" and now = 2
      and tmo = timeout and knockSeq = knockSequence and port = 9003 and now' = 3 and port' = 7001]
  by (simp add: knockSequence_facts timeout_def second_def)

text \<open>
  Claim C3.  For a resident state whose last knock lies strictly more than the timeout
  in the past, the call gives exactly what it gives for an address with no entry (a
  start from \<open>StepIndex = 0\<close>, \<open>HitCount = 0\<close>).  When the elapsed time equals the
  timeout the state is still live: the knock is evaluated against the state's own step
  and hit count.  The witness is Scenario 3 (step \<open>{7001, 3}\<close>, timeout 5 s): after
  a knock at \<open>t = 0\<close>, a knock at \<open>t = 6 s\<close> leaves \<open>HitCount = 1\<close>, one at
  \<open>t = 5 s\<close> leaves \<open>HitCount = 2\<close>.
\<close>

theorem timeout_restarts_from_scratch:
  assumes "cl ip = Some st"
  shows "(now - LastKnock st > tmo \<longrightarrow>
            processKnock knockSeq tmo now ip port cl =
            processKnock knockSeq tmo now ip port (cl(ip := None))) \<and>
         (now - LastKnock st = tmo \<longrightarrow> 0 \<le> StepIndex st \<longrightarrow>
            StepIndex st < int (length knockSeq) \<longrightarrow>
            processKnock knockSeq tmo now ip port cl =
              (let step = knockSeq ! nat (StepIndex st) in
               if port = Port step then
                 if HitCount st + 1 = Count step then
                   if StepIndex st + 1 = int (length knockSeq)
                   then Inr (SequenceComplete, cl(ip := None))
                   else Inr (StepComplete,
                     cl(ip \<mapsto> \<lparr>StepIndex = StepIndex st + 1, HitCount = 0, LastKnock = now\<rparr>))
                 else Inr (Progressed,
                   cl(ip \<mapsto> \<lparr>StepIndex = StepIndex st, HitCount = HitCount st + 1, LastKnock = now\<rparr>))
               else Inr (Mismatch, cl(ip := None))))"
  using assms processKnock_expired [where cl = cl and ip = ip and st = st]
    processKnock_live [where cl = cl and ip = ip and st = st and now = now and tmo = tmo]
  by simp

theorem timeout_restarts_from_scratch_witness:
  "processKnock knockSequence (5 * second) (6 * second) alice 7001
      [alice \<mapsto> \<lparr>StepIndex = 0, HitCount = 1, LastKnock = 0\<rparr>] =
     Inr (Progressed, [alice \<mapsto> \<lparr>StepIndex = 0, HitCount = 1, LastKnock = 6 * second\<rparr>]) \<and>
   processKnock knockSequence (5 * second) (5 * second) alice 7001
      [alice \<mapsto> \<lparr>StepIndex = 0, HitCount = 1, LastKnock = 0\<rparr>] =
     Inr (Progressed, [alice \<mapsto> \<lparr>StepIndex = 0, HitCount = 2, LastKnock = 5 * second\<rparr>])"
  using timeout_restarts_from_scratch [where cl = "[alice \<mapsto> \<lparr>StepIndex = 0, HitCount = 1, LastKnock = 0\<rparr>]"
      and ip = alice and st = "\<lparr>StepIndex = 0, HitCount = 1, LastKnock = 0\<rparr>" and now = "6 * second"
      and tmo = "5 * second" and knockSeq = knockSequence and port = 7001]
    timeout_restarts_from_scratch [where cl = "[alice \<mapsto> \<lparr>StepIndex = 0, HitCount = 1, LastKnock = 0\<rparr>]"
      and ip = alice and st = "\<lparr>StepIndex = 0, HitCount = 1, LastKnock = 0\<rparr>" and now = "5 * second"
      and tmo = "5 * second" and knockSeq = knockSequence and port = 7001]
  by (simp add: knockSequence_facts second_def processKnock_absent)

text \<open>
  Claim C7, as the code has it.  A resident state whose \<open>StepIndex\<close> is the length of
  the sequence (or more) and which has not timed out is not treated as absent: the
  "Extra security" test deletes the entry and returns, so the knock is dropped, with no
  progress and no grant; the address has no entry afterwards, and only its next knock
  starts from \<open>StepIndex = 0\<close>.  Only when the state has also timed out is it replaced
  by a new state before the test, and the knock evaluated as for an absent address.
\<close>

theorem finished_state_is_deleted_and_knock_dropped:
  assumes "cl ip = Some st" and "StepIndex st \<ge> int (length knockSeq)"
  shows "(now - LastKnock st \<le> tmo \<longrightarrow>
            processKnock knockSeq tmo now ip port cl = Inr (Dropped, cl(ip := None))) \<and>
         (now - LastKnock st > tmo \<longrightarrow>
            processKnock knockSeq tmo now ip port cl =
            processKnock knockSeq tmo now ip port (cl(ip := None)))"
  using assms processKnock_guard [where cl = cl and ip = ip and st = st]
    processKnock_expired [where cl = cl and ip = ip and st = st]
  by simp

theorem finished_state_is_deleted_and_knock_dropped_witness:
  "processKnock knockSequence timeout 0 alice 7001
      [alice \<mapsto> \<lparr>StepIndex = 3, HitCount = 0, LastKnock = 0\<rparr>] = Inr (Dropped, Map.empty) \<and>
   processKnock knockSequence timeout (2 * second) alice 7001
      [alice \<mapsto> \<lparr>StepIndex = 3, HitCount = 0, LastKnock = 0\<rparr>] =
     Inr (Progressed, [alice \<mapsto> \<lparr>StepIndex = 0, HitCount = 1, LastKnock = 2 * second\<rparr>])"
  using finished_state_is_deleted_and_knock_dropped [where cl = "[alice \<mapsto> \<lparr>StepIndex = 3, HitCount = 0, LastKnock = 0\<rparr>]"
      and ip = alice and st = "\<lparr>StepIndex = 3, HitCount = 0, LastKnock = 0\<rparr>" and now = 0
      and tmo = timeout and knockSeq = knockSequence and port = 7001]
    finished_state_is_deleted_and_knock_dropped [where cl = "[alice \<mapsto> \<lparr>StepIndex = 3, HitCount = 0, LastKnock = 0\<rparr>]"
      and ip = alice and st = "\<lparr>StepIndex = 3, HitCount = 0, LastKnock = 0\<rparr>" and now = "2 * second"
      and tmo = timeout and knockSeq = knockSequence and port = 7001]
  by (simp add: knockSequence_facts timeout_def second_def processKnock_absent)

text \<open>
  With the configured sequence and a resident state at \<open>StepIndex = 3\<close>, a knock on
  7001 is dropped and leaves no entry; for an absent address the same knock is hit
  number 1 of step 0.
\<close>

theorem finished_state_not_treated_as_absent:
  "processKnock knockSequence timeout 0 alice 7001
      [alice \<mapsto> \<lparr>StepIndex = 3, HitCount = 0, LastKnock = 0\<rparr>] = Inr (Dropped, Map.empty) \<and>
   processKnock knockSequence timeout 0 alice 7001 Map.empty =
     Inr (Progressed, [alice \<mapsto> \<lparr>StepIndex = 0, HitCount = 1, LastKnock = 0\<rparr>])"
  by (simp add: processKnock_guard [where st = "\<lparr>StepIndex = 3, HitCount = 0, LastKnock = 0\<rparr>"]
      processKnock_absent knockSequence_facts timeout_def second_def)

section \<open>The exact sequence, the invariant, isolation\<close>

text \<open>
  Claim C1.  Take a non-empty sequence whose steps all require at least one hit, and an
  address \<open>ip\<close> with no entry in the tracker map.  Knocks from \<open>ip\<close> on exactly the
  ports of the sequence, each step's port \<open>Count\<close> times, in order, each knock at most
  the timeout after the one before, never panic and produce, for every step,
  \<open>Progressed\<close> for all hits but the last and \<open>StepComplete\<close> for the last, except
  that the very last knock produces \<open>SequenceComplete\<close>.  So there is exactly one
  \<open>SequenceComplete\<close>, on the final knock, and afterwards the map is what it was
  before: \<open>ip\<close> has no entry.  The witness is Scenario 1: for the configured sequence
  the outcomes are Progressed, Progressed, StepComplete, StepComplete, Progressed,
  SequenceComplete.
\<close>

theorem exact_knocks_grant_exactly_once:
  assumes "knockSeq \<noteq> []" and "positive_counts knockSeq"
    and "cl ip = None"
    and "length ts = length (exact_knocks knockSeq)"
    and "gaps_within tmo ts"
  shows "run_knocks knockSeq tmo (knocks_from ip ts (exact_knocks knockSeq)) cl =
           Inr (map (Pair ip) (exact_outcomes knockSeq), cl) \<and>
         count_list (exact_outcomes knockSeq) SequenceComplete = 1 \<and>
         last (exact_outcomes knockSeq) = SequenceComplete"
  using assms exact_run_from_absent [where cl = cl and ip = ip] exact_outcomes_one_grant
  by simp

lemma exact_knocks_knockSequence:
  "exact_knocks knockSequence = [7001, 7001, 7001, 8002, 9003, 9003]"
  by (simp add: exact_knocks_def knockSequence_def numeral_eq_Suc)

lemma exact_outcomes_knockSequence:
  "exact_outcomes knockSequence =
     [Progressed, Progressed, StepComplete, StepComplete, Progressed, SequenceComplete]"
  by (simp add: knockSequence_def numeral_eq_Suc)

theorem exact_knocks_grant_exactly_once_witness:
  "run_knocks knockSequence (5 * second)
     [(0, alice, 7001), (1 * second, alice, 7001), (2 * second, alice, 7001),
      (3 * second, alice, 8002), (4 * second, alice, 9003), (5 * second, alice, 9003)]
     Map.empty =
   Inr ([(alice, Progressed), (alice, Progressed), (alice, StepComplete),
         (alice, StepComplete), (alice, Progressed), (alice, SequenceComplete)], Map.empty)"
  using exact_knocks_grant_exactly_once [where knockSeq = knockSequence and cl = Map.empty
      and ip = alice and tmo = "5 * second"
      and ts = "[0, 1 * second, 2 * second, 3 * second, 4 * second, 5 * second]"]
  by (simp add: exact_knocks_knockSequence exact_outcomes_knockSequence knockSequence_facts
      positive_counts_knockSequence knocks_from_def second_def)

text \<open>
  The call that completes the last step: its outcome is \<open>SequenceComplete\<close> and
  the entry of the address is deleted by that same call.
\<close>

lemma processKnock_complete_removes:
  assumes "processKnock knockSeq tmo now ip port cl = Inr (SequenceComplete, cl')"
  shows "cl' = cl(ip := None)"
proof (cases "cl ip")
  case None
  then have "cl(ip := None) = cl" by auto
  then show ?thesis
    using assms None by (auto simp add: processKnock_absent split: if_splits)
next
  case (Some st)
  show ?thesis
  proof (cases "now - LastKnock st > tmo")
    case True
    have absent: "(cl(ip := None)) ip = None" by simp
    from assms have "processKnock knockSeq tmo now ip port (cl(ip := None)) = Inr (SequenceComplete, cl')"
      using processKnock_expired [where cl = cl and ip = ip, OF Some True] by simp
    then show ?thesis
      by (auto simp add: processKnock_absent [where cl = "cl(ip := None)" and ip = ip, OF absent]
          split: if_splits)
  next
    case False
    then have live: "now - LastKnock st \<le> tmo" by simp
    show ?thesis
    proof (cases "StepIndex st \<ge> int (length knockSeq)")
      case True
      then show ?thesis
        using assms processKnock_guard [where cl = cl and ip = ip, OF Some live True] by simp
    next
      case False
      show ?thesis
      proof (cases "StepIndex st < 0")
        case True
        then have "processKnock knockSeq tmo now ip port cl = Inl IndexOutOfRange"
          using Some live by (simp add: processKnock_def Let_def)
        then show ?thesis using assms by simp
      next
        case nonneg: False
        then have i: "0 \<le> StepIndex st" "StepIndex st < int (length knockSeq)" using False by simp_all
        show ?thesis
          using assms
          by (auto simp add: processKnock_live [where cl = cl and ip = ip, OF Some live i] Let_def
              split: if_splits)
      qed
    qed
  qed
qed

lemma processKnock_completes_last_step:
  assumes "cl ip = Some st" and "now - LastKnock st \<le> tmo"
    and "0 \<le> StepIndex st" and "StepIndex st + 1 = int (length knockSeq)"
    and "port = Port (knockSeq ! nat (StepIndex st))"
    and "HitCount st + 1 = Count (knockSeq ! nat (StepIndex st))"
  shows "processKnock knockSeq tmo now ip port cl = Inr (SequenceComplete, cl(ip := None))"
proof -
  have "StepIndex st < int (length knockSeq)" using assms(4) by simp
  then show ?thesis
    using assms processKnock_live [where cl = cl and ip = ip and st = st and now = now
        and tmo = tmo and knockSeq = knockSeq and port = port]
    by simp
qed

lemma processKnock_completes_one_step_sequence:
  assumes "cl ip = None \<or> (\<exists>st. cl ip = Some st \<and> now - LastKnock st > tmo)"
    and "length knockSeq = 1" and "port = Port (knockSeq ! 0)" and "Count (knockSeq ! 0) = 1"
  shows "processKnock knockSeq tmo now ip port cl = Inr (SequenceComplete, cl(ip := None))"
proof -
  have absent: "(cl(ip := None)) ip = None" by simp
  have ne: "knockSeq \<noteq> []" using assms(2) by auto
  have "processKnock knockSeq tmo now ip port (cl(ip := None)) = Inr (SequenceComplete, cl(ip := None))"
    using assms(2,3,4) ne
    by (simp add: processKnock_absent [where cl = "cl(ip := None)" and ip = ip, OF absent])
  moreover have "processKnock knockSeq tmo now ip port cl =
      processKnock knockSeq tmo now ip port (cl(ip := None))"
  proof (cases "cl ip")
    case None
    then have "cl(ip := None) = cl" by auto
    then show ?thesis by simp
  next
    case (Some st)
    with assms(1) have "now - LastKnock st > tmo" by auto
    with Some show ?thesis by (simp add: processKnock_expired [where cl = cl and ip = ip and st = st])
  qed
  ultimately show ?thesis by simp
qed

text \<open>
  Claim C4.  When every step requires at least one hit, a call of \<^verbatim>\<open>processKnock\<close>
  on a map whose resident states all satisfy
  \<open>0 \<le> StepIndex < len(knockSequence)\<close> and \<open>0 \<le> HitCount \<le> Count - 1\<close> (for the
  \<open>Count\<close> of the state's step) returns normally and leaves a map with the same
  property; the empty map has it, so it holds after every call of every run of the
  server.  A state whose \<open>StepIndex\<close> reaches \<open>len(knockSequence)\<close> is removed by the
  call that advanced it: the matching knock that completes the last step, whether
  from a live state at the last step or, for a sequence of one step with \<open>Count = 1\<close>,
  from an absent or timed-out one, returns \<open>SequenceComplete\<close> and the map without the
  entry of the address; and whenever the outcome is \<open>SequenceComplete\<close> the entry is
  gone.
\<close>

theorem resident_states_stay_in_range:
  assumes "positive_counts knockSeq" and "resident_ok knockSeq cl"
  shows "(\<exists>out cl'. processKnock knockSeq tmo now ip port cl = Inr (out, cl') \<and>
            resident_ok knockSeq cl' \<and>
            (out = SequenceComplete \<longrightarrow> cl' = cl(ip := None))) \<and>
         (\<forall>st. cl ip = Some st \<longrightarrow> now - LastKnock st \<le> tmo \<longrightarrow>
            StepIndex st + 1 = int (length knockSeq) \<longrightarrow>
            port = Port (knockSeq ! nat (StepIndex st)) \<longrightarrow>
            HitCount st + 1 = Count (knockSeq ! nat (StepIndex st)) \<longrightarrow>
            processKnock knockSeq tmo now ip port cl =
              Inr (SequenceComplete, cl(ip := None))) \<and>
         ((cl ip = None \<or> (\<exists>st. cl ip = Some st \<and> now - LastKnock st > tmo)) \<longrightarrow>
            length knockSeq = 1 \<longrightarrow> port = Port (knockSeq ! 0) \<longrightarrow>
            Count (knockSeq ! 0) = 1 \<longrightarrow>
            processKnock knockSeq tmo now ip port cl =
              Inr (SequenceComplete, cl(ip := None))) \<and>
         (\<exists>outs cl'. run_knocks knockSeq tmo ks Map.empty = Inr (outs, cl') \<and>
            resident_ok knockSeq cl')"
proof (intro conjI allI impI)
  from processKnock_ok [OF positive_countsD [OF assms(1)] assms(2)] obtain out cl'
    where step: "processKnock knockSeq tmo now ip port cl = Inr (out, cl')"
      and ok: "resident_ok knockSeq cl'"
    by blast
  have "out = SequenceComplete \<longrightarrow> cl' = cl(ip := None)"
    using step processKnock_complete_removes by blast
  with step ok show "\<exists>out cl'. processKnock knockSeq tmo now ip port cl = Inr (out, cl') \<and>
            resident_ok knockSeq cl' \<and> (out = SequenceComplete \<longrightarrow> cl' = cl(ip := None))"
    by blast
next
  fix st
  assume res: "cl ip = Some st" and "now - LastKnock st \<le> tmo"
    "StepIndex st + 1 = int (length knockSeq)"
    "port = Port (knockSeq ! nat (StepIndex st))"
    "HitCount st + 1 = Count (knockSeq ! nat (StepIndex st))"
  moreover from assms(2) res have "0 \<le> StepIndex st" by (simp add: resident_ok_def)
  ultimately show "processKnock knockSeq tmo now ip port cl =
      Inr (SequenceComplete, cl(ip := None))"
    using processKnock_completes_last_step [where cl = cl and ip = ip and st = st] by simp
next
  assume "cl ip = None \<or> (\<exists>st. cl ip = Some st \<and> now - LastKnock st > tmo)"
    "length knockSeq = 1" "port = Port (knockSeq ! 0)" "Count (knockSeq ! 0) = 1"
  then show "processKnock knockSeq tmo now ip port cl = Inr (SequenceComplete, cl(ip := None))"
    by (rule processKnock_completes_one_step_sequence)
next
  show "\<exists>outs cl'. run_knocks knockSeq tmo ks Map.empty = Inr (outs, cl') \<and>
            resident_ok knockSeq cl'"
    using run_knocks_ok [OF positive_countsD [OF assms(1)] resident_ok_empty] by simp
qed

theorem resident_states_stay_in_range_witness:
  "positive_counts knockSequence \<and>
   resident_ok knockSequence [alice \<mapsto> \<lparr>StepIndex = 2, HitCount = 1, LastKnock = 0\<rparr>] \<and>
   processKnock knockSequence timeout 1 alice 9003
        [alice \<mapsto> \<lparr>StepIndex = 2, HitCount = 1, LastKnock = 0\<rparr>] =
      Inr (SequenceComplete, Map.empty) \<and>
   resident_ok knockSequence Map.empty \<and>
   (\<exists>outs cl'. run_knocks knockSequence timeout [(0, alice, 7001), (1, bob, 9003)] Map.empty =
        Inr (outs, cl') \<and> resident_ok knockSequence cl')"
proof -
  let ?cl = "[alice \<mapsto> \<lparr>StepIndex = 2, HitCount = 1, LastKnock = 0\<rparr>]"
  have ok: "resident_ok knockSequence ?cl"
    by (simp add: resident_ok_def knockSequence_facts)
  note all = resident_states_stay_in_range [where knockSeq = knockSequence and tmo = timeout
        and now = 1 and ip = alice and port = 9003 and cl = ?cl
        and ks = "[(0, alice, 7001), (1, bob, 9003)]", OF positive_counts_knockSequence ok]
  from all have "\<forall>st. ?cl alice = Some st \<longrightarrow> 1 - LastKnock st \<le> timeout \<longrightarrow>
            StepIndex st + 1 = int (length knockSequence) \<longrightarrow>
            9003 = Port (knockSequence ! nat (StepIndex st)) \<longrightarrow>
            HitCount st + 1 = Count (knockSequence ! nat (StepIndex st)) \<longrightarrow>
            processKnock knockSequence timeout 1 alice 9003 ?cl =
              Inr (SequenceComplete, ?cl(alice := None))"
    by (elim conjE)
  then have completing: "processKnock knockSequence timeout 1 alice 9003 ?cl =
      Inr (SequenceComplete, Map.empty)"
    by (simp add: knockSequence_facts timeout_def second_def)
  from all have run: "\<exists>outs cl'. run_knocks knockSequence timeout
        [(0, alice, 7001), (1, bob, 9003)] Map.empty = Inr (outs, cl') \<and>
        resident_ok knockSequence cl'"
    by (elim conjE)
  show ?thesis
    using positive_counts_knockSequence ok completing run resident_ok_empty [of knockSequence]
    by (intro conjI)
qed

text \<open>
  Claim C5.  A call \<^verbatim>\<open>processKnock(ip, port)\<close> that returns leaves the entry of every
  other address as it was.  Hence, in any run of knocks from any addresses, the
  outcomes of one address \<open>a\<close> and its final entry are those of the run of the knocks
  of \<open>a\<close> alone: the knocks of the others make no difference to it.
\<close>

theorem knocks_of_other_addresses_do_not_interfere:
  "(\<forall>out cl'. processKnock knockSeq tmo now ip port cl = Inr (out, cl') \<longrightarrow>
      (\<forall>other. other \<noteq> ip \<longrightarrow> cl' other = cl other)) \<and>
   (\<forall>outs cl'. run_knocks knockSeq tmo ks cl = Inr (outs, cl') \<longrightarrow>
      (\<exists>cl''. run_knocks knockSeq tmo (knocks_of a ks) cl = Inr (outcomes_of a outs, cl'')
          \<and> cl'' a = cl' a))"
proof (intro conjI allI impI)
  fix out cl' other
  assume "processKnock knockSeq tmo now ip port cl = Inr (out, cl')" "other \<noteq> ip"
  then show "cl' other = cl other" by (rule processKnock_frame)
next
  fix outs cl'
  assume "run_knocks knockSeq tmo ks cl = Inr (outs, cl')"
  then show "\<exists>cl''. run_knocks knockSeq tmo (knocks_of a ks) cl = Inr (outcomes_of a outs, cl'')
          \<and> cl'' a = cl' a"
    using run_knocks_projection [where cl = cl and ?cl2.0 = cl and a = a] by blast
qed

lemma interleaved_run:
  "run_knocks knockSequence timeout [(0, alice, 7001), (0, bob, 9003), (1, alice, 7001)] Map.empty =
     Inr ([(alice, Progressed), (bob, Mismatch), (alice, Progressed)],
          [alice \<mapsto> \<lparr>StepIndex = 0, HitCount = 2, LastKnock = 1\<rparr>])"
proof -
  let ?c1 = "[alice \<mapsto> \<lparr>StepIndex = 0, HitCount = 1, LastKnock = 0\<rparr>]"
  have 1: "processKnock knockSequence timeout 0 alice 7001 Map.empty = Inr (Progressed, ?c1)"
    by (simp add: processKnock_absent knockSequence_facts)
  have 2: "processKnock knockSequence timeout 0 bob 9003 ?c1 = Inr (Mismatch, ?c1)"
    by (simp add: processKnock_absent knockSequence_facts alice_bob)
  have 3: "processKnock knockSequence timeout 1 alice 7001 ?c1 =
      Inr (Progressed, [alice \<mapsto> \<lparr>StepIndex = 0, HitCount = 2, LastKnock = 1\<rparr>])"
    by (simp add: processKnock_live [where st = "\<lparr>StepIndex = 0, HitCount = 1, LastKnock = 0\<rparr>"]
        knockSequence_facts timeout_def second_def)
  show ?thesis by (simp add: 1 2 3)
qed

theorem knocks_of_other_addresses_do_not_interfere_witness:
  "processKnock knockSequence timeout 0 bob 9003
      [alice \<mapsto> \<lparr>StepIndex = 0, HitCount = 1, LastKnock = 0\<rparr>] =
     Inr (Mismatch, [alice \<mapsto> \<lparr>StepIndex = 0, HitCount = 1, LastKnock = 0\<rparr>]) \<and>
   (\<exists>cl''. run_knocks knockSequence timeout [(0, alice, 7001), (1, alice, 7001)] Map.empty =
        Inr ([(alice, Progressed), (alice, Progressed)], cl'') \<and>
      cl'' alice = Some \<lparr>StepIndex = 0, HitCount = 2, LastKnock = 1\<rparr>)"
proof -
  have "processKnock knockSequence timeout 0 bob 9003
      [alice \<mapsto> \<lparr>StepIndex = 0, HitCount = 1, LastKnock = 0\<rparr>] =
     Inr (Mismatch, [alice \<mapsto> \<lparr>StepIndex = 0, HitCount = 1, LastKnock = 0\<rparr>])"
    by (simp add: processKnock_absent knockSequence_facts alice_bob)
  moreover have "\<exists>cl''. run_knocks knockSequence timeout [(0, alice, 7001), (1, alice, 7001)] Map.empty =
        Inr ([(alice, Progressed), (alice, Progressed)], cl'') \<and>
      cl'' alice = Some \<lparr>StepIndex = 0, HitCount = 2, LastKnock = 1\<rparr>"
    using knocks_of_other_addresses_do_not_interfere [where knockSeq = knockSequence
        and tmo = timeout and cl = Map.empty and a = alice
        and ks = "[(0, alice, 7001), (0, bob, 9003), (1, alice, 7001)]"]
      interleaved_run
    by (simp add: knocks_of_def outcomes_of_def alice_bob)
  ultimately show ?thesis by simp
qed

section \<open>The two servers\<close>

text \<open>
  Claim C6.  For every non-empty list of ports and every timeout, the single-hit server
  and the hit-count server run on the same ports with \<open>Count = 1\<close> for every step do
  the same on every list of knocks: started from corresponding maps (an index \<open>n\<close> of
  the one is the state \<open>StepIndex = n\<close>, \<open>HitCount = 0\<close> of the other, with the same
  time of the last knock), they produce the same outcomes knock by knock, access
  grants included, and end in corresponding maps: entries are created, advanced, reset
  and removed alike.  Neither panics.  The ports need not be pairwise distinct for
  this.  The maps the single-hit server is started from are those it can reach
  (every resident index within the sequence), the empty map among them.
\<close>

theorem single_hit_server_is_count_1_server:
  assumes "ports \<noteq> []" and "resident_ok_single ports cl"
  shows "run_knocks (with_count_1 ports) tmo ks (lift_clients cl) =
           lift_result (run_knocks_single ports tmo ks cl) \<and>
         (\<exists>outs cl'. run_knocks_single ports tmo ks cl = Inr (outs, cl'))"
  using run_knocks_single_refines [OF assms, of tmo ks] by blast

lemma single_run:
  "run_knocks_single knockSequence_single timeout_single
     [(0, alice, 7001), (1, bob, 7001), (2, alice, 8002), (3, bob, 9003), (4, alice, 9003)]
     Map.empty =
   Inr ([(alice, StepComplete), (bob, StepComplete), (alice, StepComplete), (bob, Mismatch),
         (alice, SequenceComplete)], Map.empty)"
proof -
  let ?a1 = "[alice \<mapsto> \<lparr>Index = 1, LastKnock_single = 0\<rparr>]"
  let ?b1 = "?a1(bob \<mapsto> \<lparr>Index = 1, LastKnock_single = 1\<rparr>)"
  let ?a2 = "?b1(alice \<mapsto> \<lparr>Index = 2, LastKnock_single = 2\<rparr>)"
  let ?b2 = "?a2(bob := None)"
  have 1: "processKnock_single knockSequence_single timeout_single 0 alice 7001 Map.empty =
      Inr (StepComplete, ?a1)"
    by (simp add: processKnock_single_def Let_def new_state_single_def knockSequence_single_def)
  have 2: "processKnock_single knockSequence_single timeout_single 1 bob 7001 ?a1 =
      Inr (StepComplete, ?b1)"
    by (simp add: processKnock_single_def Let_def new_state_single_def knockSequence_single_def
        alice_bob)
  have 3: "processKnock_single knockSequence_single timeout_single 2 alice 8002 ?b1 =
      Inr (StepComplete, ?a2)"
    by (simp add: processKnock_single_def Let_def new_state_single_def knockSequence_single_def
        alice_bob timeout_single_def second_def)
  have 4: "processKnock_single knockSequence_single timeout_single 3 bob 9003 ?a2 =
      Inr (Mismatch, ?b2)"
    by (simp add: processKnock_single_def Let_def new_state_single_def knockSequence_single_def
        alice_bob timeout_single_def second_def)
  have 5: "processKnock_single knockSequence_single timeout_single 4 alice 9003 ?b2 =
      Inr (SequenceComplete, Map.empty)"
    by (auto simp add: processKnock_single_def Let_def new_state_single_def
        knockSequence_single_def alice_bob timeout_single_def second_def)
  show ?thesis by (simp only: run_knocks_single.simps 1 2 3 4 5 sum.case prod.case)
qed

theorem single_hit_server_is_count_1_server_witness:
  "run_knocks (with_count_1 knockSequence_single) timeout_single
     [(0, alice, 7001), (1, bob, 7001), (2, alice, 8002), (3, bob, 9003), (4, alice, 9003)]
     Map.empty =
   Inr ([(alice, StepComplete), (bob, StepComplete), (alice, StepComplete), (bob, Mismatch),
         (alice, SequenceComplete)], Map.empty)"
proof -
  have ne: "knockSequence_single \<noteq> []" by (simp add: knockSequence_single_def)
  have ok: "resident_ok_single knockSequence_single Map.empty"
    by (simp add: resident_ok_single_def)
  from single_hit_server_is_count_1_server [OF ne ok, of timeout_single
        "[(0, alice, 7001), (1, bob, 7001), (2, alice, 8002), (3, bob, 9003), (4, alice, 9003)]"]
  have "run_knocks (with_count_1 knockSequence_single) timeout_single
     [(0, alice, 7001), (1, bob, 7001), (2, alice, 8002), (3, bob, 9003), (4, alice, 9003)]
     (lift_clients Map.empty) =
     lift_result (run_knocks_single knockSequence_single timeout_single
     [(0, alice, 7001), (1, bob, 7001), (2, alice, 8002), (3, bob, 9003), (4, alice, 9003)]
     Map.empty)"
    by (rule conjunct1)
  then show ?thesis
    by (simp only: single_run lift_result_def sum.case prod.case lift_clients_empty)
qed



lemma fold_add_mset: "fold (\<lambda>port started. add_mset port started) ports started0 = mset ports + started0"
  by (induction ports arbitrary: started0) auto

lemma server_single_eq: "server_single ports = mset ports"
  by (simp add: server_single_def fold_add_mset)


lemma server_single_one_listener_per_step:
  "count (server_single ports) port = count_list ports port"
  by (simp add: server_single_eq count_mset)





section \<open>The client's attempts\<close>

lemma dialled_append: "dialled (acts @ acts2) = dialled acts @ dialled acts2"
  by (induction acts rule: dialled.induct) simp_all

lemma client_loop_no_close_error:
  "\<forall>m < length ports. env (n + m) \<noteq> DialOK_CloseFailed \<Longrightarrow>
     snd (client_loop host env n ports) = None \<and>
     dialled (fst (client_loop host env n ports)) = ports \<and>
     filter (\<lambda>a. a \<noteq> CloseConn) (fst (client_loop host env n ports)) =
       concat (map (\<lambda>port. [Dial host port, Sleep (500 * millisecond)]) ports)"
proof (induction ports arbitrary: n)
  case Nil
  show ?case by simp
next
  case (Cons port ports)
  from Cons.prems have "env (n + 0) \<noteq> DialOK_CloseFailed" by (intro Cons.prems [rule_format]) simp
  then have first: "env n = DialFailed \<or> env n = DialOK_CloseOK"
    by (cases "env n") auto
  have "\<forall>m < length ports. env (Suc n + m) \<noteq> DialOK_CloseFailed"
  proof (intro allI impI)
    fix m assume "m < length ports"
    then have "env (n + Suc m) \<noteq> DialOK_CloseFailed" by (intro Cons.prems [rule_format]) simp
    then show "env (Suc n + m) \<noteq> DialOK_CloseFailed" by simp
  qed
  from Cons.IH [OF this] first show ?case
    by (auto simp add: knock_def split: prod.splits option.splits)
qed

lemma client_loop_first_close_error:
  "j < length ports \<Longrightarrow> env (n + j) = DialOK_CloseFailed \<Longrightarrow>
   \<forall>m < j. env (n + m) \<noteq> DialOK_CloseFailed \<Longrightarrow>
     snd (client_loop host env n ports) = Some ClosePanic \<and>
     dialled (fst (client_loop host env n ports)) = take (Suc j) ports \<and>
     filter (\<lambda>a. a \<noteq> CloseConn) (fst (client_loop host env n ports)) =
       concat (map (\<lambda>port. [Dial host port, Sleep (500 * millisecond)]) (take j ports)) @
       [Dial host (ports ! j)]"
proof (induction ports arbitrary: n j)
  case Nil
  then show ?case by simp
next
  case (Cons port ports)
  show ?case
  proof (cases j)
    case 0
    then show ?thesis using Cons.prems(2) by (simp add: knock_def)
  next
    case (Suc j')
    from Cons.prems(3) Suc have "env (n + 0) \<noteq> DialOK_CloseFailed"
      by (intro Cons.prems(3) [rule_format]) simp
    then have first: "env n = DialFailed \<or> env n = DialOK_CloseOK"
      by (cases "env n") auto
    have 1: "j' < length ports" using Cons.prems(1) Suc by simp
    have 2: "env (Suc n + j') = DialOK_CloseFailed" using Cons.prems(2) Suc by simp
    have 3: "\<forall>m < j'. env (Suc n + m) \<noteq> DialOK_CloseFailed"
    proof (intro allI impI)
      fix m assume "m < j'"
      then have "env (n + Suc m) \<noteq> DialOK_CloseFailed"
        using Suc by (intro Cons.prems(3) [rule_format]) simp
      then show "env (Suc n + m) \<noteq> DialOK_CloseFailed" by simp
    qed
    from Cons.IH [OF 1 2 3] first show ?thesis
      by (auto simp add: knock_def Suc split: prod.splits option.splits)
  qed
qed

text \<open>
  Claim C9, as the code has it.  As long as no \<^verbatim>\<open>Close\<close> of an opened connection
  returns an error, the client does not panic, and whichever dials succeed or fail its
  connection attempts are, in this order, those of the configured sequence of the
  hit-count server, each step's port \<open>Count\<close> times (7001, 7001, 7001, 8002, 9003,
  9003): every attempt is made once, none is repeated, and each is followed by a
  sleep of 500 ms.  When the \<^verbatim>\<open>Close\<close> of attempt number \<open>j\<close> is the first to return
  an error, \<^verbatim>\<open>knock\<close> panics and the client ends there: it has made the first
  \<open>j + 1\<close> attempts of that list, each of the first \<open>j\<close> followed by its sleep, and
  makes no other.
\<close>

theorem client_attempts_until_close_error:
  "((\<forall>m < length knockSeqPorts. env m \<noteq> DialOK_CloseFailed) \<longrightarrow>
      snd (client env) = None \<and>
      dialled (fst (client env)) = exact_knocks knockSequence \<and>
      filter (\<lambda>a. a \<noteq> CloseConn) (fst (client env)) =
        concat (map (\<lambda>port. [Dial serverIP port, Sleep (500 * millisecond)])
                 (exact_knocks knockSequence)) @ [Println]) \<and>
   (j < length knockSeqPorts \<longrightarrow> env j = DialOK_CloseFailed \<longrightarrow>
    (\<forall>m < j. env m \<noteq> DialOK_CloseFailed) \<longrightarrow>
      snd (client env) = Some ClosePanic \<and>
      dialled (fst (client env)) = take (Suc j) (exact_knocks knockSequence) \<and>
      filter (\<lambda>a. a \<noteq> CloseConn) (fst (client env)) =
        concat (map (\<lambda>port. [Dial serverIP port, Sleep (500 * millisecond)])
                 (take j (exact_knocks knockSequence))) @
        [Dial serverIP (exact_knocks knockSequence ! j)])"
proof (intro conjI impI)
  have ports: "exact_knocks knockSequence = knockSeqPorts"
    by (simp add: exact_knocks_knockSequence knockSeqPorts_def)
  obtain acts r where loop: "client_loop serverIP env 0 knockSeqPorts = (acts, r)"
    by (cases "client_loop serverIP env 0 knockSeqPorts")
  {
    assume "\<forall>m < length knockSeqPorts. env m \<noteq> DialOK_CloseFailed"
    then have "\<forall>m < length knockSeqPorts. env (0 + m) \<noteq> DialOK_CloseFailed" by simp
    from client_loop_no_close_error [OF this, of serverIP] loop
    have "r = None" "dialled acts = knockSeqPorts"
      "filter (\<lambda>a. a \<noteq> CloseConn) acts =
         concat (map (\<lambda>port. [Dial serverIP port, Sleep (500 * millisecond)]) knockSeqPorts)"
      by simp_all
    then show "snd (client env) = None"
      and "dialled (fst (client env)) = exact_knocks knockSequence"
      and "filter (\<lambda>a. a \<noteq> CloseConn) (fst (client env)) =
        concat (map (\<lambda>port. [Dial serverIP port, Sleep (500 * millisecond)])
                 (exact_knocks knockSequence)) @ [Println]"
      by (simp_all add: client_def loop ports dialled_append)
  }
  {
    assume "j < length knockSeqPorts" "env j = DialOK_CloseFailed"
      "\<forall>m < j. env m \<noteq> DialOK_CloseFailed"
    then have "j < length knockSeqPorts" "env (0 + j) = DialOK_CloseFailed"
      "\<forall>m < j. env (0 + m) \<noteq> DialOK_CloseFailed" by simp_all
    from client_loop_first_close_error [OF this, of serverIP] loop
    have "r = Some ClosePanic" "dialled acts = take (Suc j) knockSeqPorts"
      "filter (\<lambda>a. a \<noteq> CloseConn) acts =
         concat (map (\<lambda>port. [Dial serverIP port, Sleep (500 * millisecond)])
                  (take j knockSeqPorts)) @ [Dial serverIP (knockSeqPorts ! j)]"
      by simp_all
    then show "snd (client env) = Some ClosePanic"
      and "dialled (fst (client env)) = take (Suc j) (exact_knocks knockSequence)"
      and "filter (\<lambda>a. a \<noteq> CloseConn) (fst (client env)) =
        concat (map (\<lambda>port. [Dial serverIP port, Sleep (500 * millisecond)])
                 (take j (exact_knocks knockSequence))) @
        [Dial serverIP (exact_knocks knockSequence ! j)]"
      by (simp_all add: client_def loop ports)
  }
qed

theorem client_attempts_until_close_error_witness:
  "snd (client alternating) = None \<and>
   dialled (fst (client alternating)) = [7001, 7001, 7001, 8002, 9003, 9003] \<and>
   snd (client all_refused) = None \<and>
   dialled (fst (client all_refused)) = [7001, 7001, 7001, 8002, 9003, 9003] \<and>
   snd (client second_close_fails) = Some ClosePanic \<and>
   dialled (fst (client second_close_fails)) = [7001, 7001] \<and>
   filter (\<lambda>a. a \<noteq> CloseConn) (fst (client second_close_fails)) =
     [Dial serverIP 7001, Sleep (500 * millisecond), Dial serverIP 7001]"
  using client_attempts_until_close_error [of alternating 0]
    client_attempts_until_close_error [of all_refused 0]
    client_attempts_until_close_error [of second_close_fails 1]
  by (simp add: alternating_def all_refused_def second_close_fails_def
      exact_knocks_knockSequence knockSeqPorts_def)

text \<open>
  When the first dial succeeds and its \<^verbatim>\<open>Close\<close> fails, the client makes one
  attempt, not six.
\<close>

theorem client_stops_at_close_error:
  "client close_fails = ([Dial serverIP 7001, CloseConn], Some ClosePanic) \<and>
   dialled (fst (client close_fails)) = [7001]"
  by (simp add: client_def knockSeqPorts_def knock_def close_fails_def)

section \<open>A step with a non-positive count\<close>

lemma stuck_before_mono: "stuck_before k n cl \<Longrightarrow> n \<le> m \<Longrightarrow> stuck_before k m cl"
  by (fastforce simp add: stuck_before_def)

lemma stuck_before_update:
  assumes "stuck_before k n cl" "0 \<le> StepIndex st" "StepIndex st \<le> int k"
    "0 \<le> sint (HitCount st)" "sint (HitCount st) \<le> n"
  shows "stuck_before k n (cl(ip \<mapsto> st))"
  using assms by (simp add: stuck_before_def)

lemma stuck_before_delete:
  "stuck_before k n cl \<Longrightarrow> stuck_before k n (cl(ip := None))"
  by (simp add: stuck_before_def)

lemma no_grant_absent:
  assumes k: "k < length knockSeq" and bad: "sint (Count (knockSeq ! k)) \<le> 0"
    and stuck: "stuck_before k (n + 1) cl" and n: "0 \<le> n" and absent: "cl ip = None"
  shows "\<exists>out cl'. processKnock knockSeq tmo now ip port cl = Inr (out, cl') \<and>
           out \<noteq> SequenceComplete \<and> stuck_before k (n + 1) cl'"
proof -
  have ne: "knockSeq \<noteq> []" using k by auto
  have k_pos: "1 = Count (knockSeq ! 0) \<Longrightarrow> 0 < k"
  proof (rule ccontr)
    assume "1 = Count (knockSeq ! 0)" "\<not> 0 < k"
    then have "sint (Count (knockSeq ! k)) = 1" by simp
    with bad show False by simp
  qed
  then have len: "1 = Count (knockSeq ! 0) \<Longrightarrow> length knockSeq \<noteq> 1" using k by auto
  show ?thesis
    using ne k_pos len stuck n
    by (auto simp add: processKnock_absent [where cl = cl and ip = ip, OF absent] intro!: stuck_before_update)
qed

lemma no_grant_live:
  assumes k: "k < length knockSeq" and bad: "sint (Count (knockSeq ! k)) \<le> 0"
    and stuck: "stuck_before k n cl" and n: "n + 1 < 2 ^ 63"
    and res: "cl ip = Some st" and live: "now - LastKnock st \<le> tmo"
  shows "\<exists>out cl'. processKnock knockSeq tmo now ip port cl = Inr (out, cl') \<and>
           out \<noteq> SequenceComplete \<and> stuck_before k (n + 1) cl'"
proof -
  from stuck res have i: "0 \<le> StepIndex st" "StepIndex st \<le> int k"
    and h: "0 \<le> sint (HitCount st)" "sint (HitCount st) \<le> n"
    by (auto simp add: stuck_before_def)
  have i_len: "StepIndex st < int (length knockSeq)" using i k by simp
  have s: "sint (HitCount st + 1) = sint (HitCount st) + 1"
    using h(2) n sint_succ [of "HitCount st" "n + 1"] by simp
  have before: "HitCount st + 1 = Count (knockSeq ! nat (StepIndex st)) \<Longrightarrow> StepIndex st < int k"
  proof (rule ccontr)
    assume eq: "HitCount st + 1 = Count (knockSeq ! nat (StepIndex st))" and "\<not> StepIndex st < int k"
    then have "nat (StepIndex st) = k" using i by simp
    then have "sint (HitCount st + 1) \<le> 0" using eq bad by simp
    then show False using s h by simp
  qed
  then have not_last: "HitCount st + 1 = Count (knockSeq ! nat (StepIndex st)) \<Longrightarrow>
      StepIndex st + 1 \<noteq> int (length knockSeq)"
    using k by auto
  have stuck': "stuck_before k (n + 1) cl" using stuck by (rule stuck_before_mono) simp
  show ?thesis
    using i h s before not_last stuck'
    by (auto simp add: processKnock_live [where cl = cl and ip = ip, OF res live i(1) i_len] Let_def
        intro!: stuck_before_update stuck_before_delete)
qed

lemma no_grant_step:
  assumes k: "k < length knockSeq" and bad: "sint (Count (knockSeq ! k)) \<le> 0"
    and stuck: "stuck_before k n cl" and n: "0 \<le> n" "n + 1 < 2 ^ 63"
  shows "\<exists>out cl'. processKnock knockSeq tmo now ip port cl = Inr (out, cl') \<and>
           out \<noteq> SequenceComplete \<and> stuck_before k (n + 1) cl'"
proof -
  have stuck': "stuck_before k (n + 1) cl" using stuck by (rule stuck_before_mono) simp
  show ?thesis
  proof (cases "cl ip")
    case None
    with k bad stuck' n(1) show ?thesis by (rule no_grant_absent)
  next
    case (Some st)
    show ?thesis
    proof (cases "now - LastKnock st \<le> tmo")
      case True
      with k bad stuck n(2) Some show ?thesis by (rule no_grant_live)
    next
      case False
      have "\<exists>out cl'. processKnock knockSeq tmo now ip port (cl(ip := None)) = Inr (out, cl') \<and>
           out \<noteq> SequenceComplete \<and> stuck_before k (n + 1) cl'"
        using k bad stuck_before_delete [OF stuck'] n(1) by (rule no_grant_absent) simp
      then show ?thesis
        using processKnock_expired [where cl = cl and ip = ip, OF Some] False by simp
    qed
  qed
qed

lemma no_grant_run:
  assumes k: "k < length knockSeq" and bad: "sint (Count (knockSeq ! k)) \<le> 0"
  shows "stuck_before k n cl \<Longrightarrow> 0 \<le> n \<Longrightarrow> n + int (length ks) < 2 ^ 63 \<Longrightarrow>
     \<exists>outs cl'. run_knocks knockSeq tmo ks cl = Inr (outs, cl') \<and>
        (\<forall>a. (a, SequenceComplete) \<notin> set outs) \<and> stuck_before k (n + int (length ks)) cl'"
proof (induction ks arbitrary: cl n)
  case Nil
  then show ?case by simp
next
  case (Cons kn ks)
  obtain now ip port where kn: "kn = (now, ip, port)" by (cases kn)
  have "n + 1 < 2 ^ 63" using Cons.prems(3) by simp
  with no_grant_step [OF k bad Cons.prems(1,2)] obtain out cl1
    where 1: "processKnock knockSeq tmo now ip port cl = Inr (out, cl1)"
      and 2: "out \<noteq> SequenceComplete" and 3: "stuck_before k (n + 1) cl1"
    by blast
  have "\<exists>outs cl'. run_knocks knockSeq tmo ks cl1 = Inr (outs, cl') \<and>
        (\<forall>a. (a, SequenceComplete) \<notin> set outs) \<and> stuck_before k (n + 1 + int (length ks)) cl'"
    using 3 Cons.prems(2,3) by (intro Cons.IH) simp_all
  then obtain outs cl2
    where 4: "run_knocks knockSeq tmo ks cl1 = Inr (outs, cl2)"
      and 5: "\<forall>a. (a, SequenceComplete) \<notin> set outs"
      and 6: "stuck_before k (n + 1 + int (length ks)) cl2"
    by blast
  have "n + 1 + int (length ks) = n + int (length (kn # ks))" by simp
  with 6 have 7: "stuck_before k (n + int (length (kn # ks))) cl2" by simp
  show ?case using 1 2 4 5 7 by (simp add: kn)
qed


text \<open>
  Claim C10, as the code has it.  Let step number \<open>k\<close> of the sequence have a \<open>Count\<close>
  of zero or less.  In every run of fewer than \<open>2\<^sup>6\<^sup>3\<close> knocks, started from the empty
  map, the server never panics, the hit counter of a matching knock is positive and so
  differs from that \<open>Count\<close>, no state is ever resident beyond step \<open>k\<close>, and no knock
  has the outcome \<open>SequenceComplete\<close>: no address is granted access.  (The bound is
  that of the counter: \<^verbatim>\<open>HitCount++\<close> wraps around after \<open>2\<^sup>6\<^sup>3 - 1\<close>.)
\<close>

theorem no_grant_before_the_hit_counter_wraps:
  assumes "k < length knockSeq" and "sint (Count (knockSeq ! k)) \<le> 0"
    and "length ks < 2 ^ 63"
  shows "\<exists>outs cl'. run_knocks knockSeq tmo ks Map.empty = Inr (outs, cl') \<and>
           (\<forall>a. (a, SequenceComplete) \<notin> set outs) \<and>
           (\<forall>a st. cl' a = Some st \<longrightarrow> StepIndex st \<le> int k)"
proof -
  have start: "stuck_before k 0 Map.empty" by (simp add: stuck_before_def)
  have len: "0 + int (length ks) < 2 ^ 63" using assms(3) by simp
  from no_grant_run [OF assms(1,2) start _ len, of tmo] obtain outs cl'
    where "run_knocks knockSeq tmo ks Map.empty = Inr (outs, cl')"
      and "\<forall>a. (a, SequenceComplete) \<notin> set outs"
      and "stuck_before k (0 + int (length ks)) cl'"
    by auto
  then show ?thesis by (auto simp add: stuck_before_def)
qed



theorem no_grant_before_the_hit_counter_wraps_witness:
  "(0 :: nat) < length zero_count_sequence \<and>
   sint (Count (zero_count_sequence ! 0)) \<le> 0 \<and>
   length [(0, alice, 7001), (1, alice, 7001), (2, alice, 8002) :: knock] < 2 ^ 63 \<and>
   (\<exists>outs cl'. run_knocks zero_count_sequence timeout
        [(0, alice, 7001), (1, alice, 7001), (2, alice, 8002)] Map.empty = Inr (outs, cl') \<and>
      (\<forall>a. (a, SequenceComplete) \<notin> set outs) \<and>
      (\<forall>a st. cl' a = Some st \<longrightarrow> StepIndex st \<le> int 0))"
proof -
  have 1: "(0 :: nat) < length zero_count_sequence" by (simp add: zero_count_sequence_def)
  have 2: "sint (Count (zero_count_sequence ! 0)) \<le> 0" by (simp add: zero_count_sequence_def)
  have 3: "length [(0, alice, 7001), (1, alice, 7001), (2, alice, 8002) :: knock] < 2 ^ 63"
    by simp
  show ?thesis
    using no_grant_before_the_hit_counter_wraps [OF 1 2 3, of timeout] 1 2 3
    by (intro conjI) assumption+
qed

text \<open>
  Beyond the bound the counter wraps.  With the one-step sequence \<open>{p, 0}\<close>, matching
  knocks at one clock reading leave the state on step 0 as long as the counter is not
  0 again.
\<close>

lemma stays_on_step_until_wrap:
  "cl ip = Some \<lparr>StepIndex = 0, HitCount = h, LastKnock = t\<rparr> \<Longrightarrow> 0 \<le> tmo \<Longrightarrow>
   (\<forall>m. 1 \<le> m \<and> m \<le> n \<longrightarrow> h + of_nat m \<noteq> 0) \<Longrightarrow>
   run_knocks [\<lparr>Port = p, Count = 0\<rparr>] tmo (replicate n (t, ip, p)) cl =
     Inr (replicate n (ip, Progressed),
          cl(ip \<mapsto> \<lparr>StepIndex = 0, HitCount = h + of_nat n, LastKnock = t\<rparr>))"
proof (induction n arbitrary: h cl)
  case 0
  then have "cl(ip \<mapsto> \<lparr>StepIndex = 0, HitCount = h, LastKnock = t\<rparr>) = cl" by auto
  then show ?case by simp
next
  case (Suc n)
  let ?st = "\<lparr>StepIndex = 0, HitCount = h, LastKnock = t\<rparr>"
  let ?cl1 = "cl(ip \<mapsto> \<lparr>StepIndex = 0, HitCount = h + 1, LastKnock = t\<rparr>)"
  have "h + of_nat 1 \<noteq> 0" using Suc.prems(3) by (intro Suc.prems(3) [rule_format]) simp
  then have h1: "h + 1 \<noteq> 0" by simp
  have one: "processKnock [\<lparr>Port = p, Count = 0\<rparr>] tmo t ip p cl = Inr (Progressed, ?cl1)"
    using processKnock_live [where cl = cl and ip = ip and st = ?st and now = t and tmo = tmo
        and knockSeq = "[\<lparr>Port = p, Count = 0\<rparr>]" and port = p] Suc.prems(1,2) h1
    by simp
  have more: "\<forall>m. 1 \<le> m \<and> m \<le> n \<longrightarrow> (h + 1) + of_nat m \<noteq> 0"
  proof (intro allI impI)
    fix m assume "1 \<le> m \<and> m \<le> n"
    then have "h + of_nat (Suc m) \<noteq> 0" by (intro Suc.prems(3) [rule_format]) simp
    then show "(h + 1) + of_nat m \<noteq> 0" by (simp add: ac_simps)
  qed
  have rest: "run_knocks [\<lparr>Port = p, Count = 0\<rparr>] tmo (replicate n (t, ip, p)) ?cl1 =
      Inr (replicate n (ip, Progressed),
           ?cl1(ip \<mapsto> \<lparr>StepIndex = 0, HitCount = (h + 1) + of_nat n, LastKnock = t\<rparr>))"
    using Suc.prems(2) more by (intro Suc.IH) simp_all
  have eq: "?cl1(ip \<mapsto> \<lparr>StepIndex = 0, HitCount = (h + 1) + of_nat n, LastKnock = t\<rparr>) =
      cl(ip \<mapsto> \<lparr>StepIndex = 0, HitCount = h + of_nat (Suc n), LastKnock = t\<rparr>)"
    by (simp add: ac_simps)
  show ?case
    by (simp only: replicate_Suc run_knocks.simps one rest eq sum.case prod.case)
qed

lemma zero_count_granted_at_wrap:
  assumes tmo: "0 \<le> tmo" and n: "n + 2 = 2 ^ 64"
  shows "run_knocks [\<lparr>Port = p, Count = 0\<rparr>] tmo
           ((t, ip, p) # replicate n (t, ip, p) @ [(t, ip, p)]) Map.empty =
         Inr ((ip, Progressed) # replicate n (ip, Progressed) @ [(ip, SequenceComplete)],
              Map.empty)"
proof -
  let ?seq = "[\<lparr>Port = p, Count = 0\<rparr>]"
  let ?c1 = "[ip \<mapsto> \<lparr>StepIndex = 0, HitCount = 1, LastKnock = t\<rparr>]"
  let ?last = "\<lparr>StepIndex = 0, HitCount = 1 + of_nat n, LastKnock = t\<rparr>"
  let ?c2 = "[ip \<mapsto> ?last]"
  have first: "processKnock ?seq tmo t ip p Map.empty = Inr (Progressed, ?c1)"
    by (simp add: processKnock_absent)
  have no_wrap: "\<forall>m. 1 \<le> m \<and> m \<le> n \<longrightarrow> (1 :: go_int) + of_nat m \<noteq> 0"
  proof (intro allI impI)
    fix m assume m: "1 \<le> m \<and> m \<le> n"
    have "(of_nat (Suc m) :: go_int) \<noteq> 0"
      using m n by (intro of_nat_neq_0) simp_all
    then show "(1 :: go_int) + of_nat m \<noteq> 0" by simp
  qed
  have middle: "run_knocks ?seq tmo (replicate n (t, ip, p)) ?c1 =
      Inr (replicate n (ip, Progressed), ?c2)"
    using stays_on_step_until_wrap [where cl = ?c1 and ip = ip and h = 1 and t = t
        and tmo = tmo and n = n and p = p] tmo no_wrap
    by simp
  have "(1 :: go_int) + of_nat n + 1 = of_nat (n + 2)" by simp
  also have "\<dots> = 0" using n of_nat_2p [where ?'a = 64] by simp
  finally have wrap: "(1 :: go_int) + of_nat n + 1 = 0" .
  have final: "processKnock ?seq tmo t ip p ?c2 = Inr (SequenceComplete, Map.empty)"
    using processKnock_live [where cl = ?c2 and ip = ip and st = ?last and now = t and tmo = tmo
        and knockSeq = ?seq and port = p] tmo wrap
    by auto
  have tail: "run_knocks ?seq tmo (replicate n (t, ip, p) @ [(t, ip, p)]) ?c1 =
      Inr (replicate n (ip, Progressed) @ [(ip, SequenceComplete)], Map.empty)"
    by (simp only: run_knocks_append middle run_knocks.simps final sum.case prod.case)
  show ?thesis by (simp only: run_knocks.simps first tail sum.case prod.case)
qed


text \<open>
  For the sequence \<open>{7001, 0}\<close>, \<open>2\<^sup>6\<^sup>4\<close> knocks of one address on 7001, all within
  the timeout: the counter goes from 1 up, wraps around, and is 0 at the last knock,
  which completes the step and grants access.
\<close>

theorem zero_count_step_completes_after_wrap:
  "run_knocks [\<lparr>Port = 7001, Count = 0\<rparr>] timeout (replicate (2 ^ 64) (0, alice, 7001)) Map.empty =
     Inr (replicate (2 ^ 64 - 1) (alice, Progressed) @ [(alice, SequenceComplete)], Map.empty)"
proof -
  define n :: nat where "n = 2 ^ 64 - 2"
  have n2: "n + 2 = 2 ^ 64" by (simp add: n_def)
  have all: "(2 :: nat) ^ 64 = Suc (Suc n)" and but_one: "(2 :: nat) ^ 64 - 1 = Suc n"
    using n2 by simp_all
  have knocks: "replicate (2 ^ 64) (0 :: int, alice, 7001 :: int) =
      (0, alice, 7001) # replicate n (0, alice, 7001) @ [(0, alice, 7001)]"
    by (simp only: all replicate_Suc replicate_append_same)
  have outs: "replicate (2 ^ 64 - 1) (alice, Progressed) @ [(alice, SequenceComplete)] =
      (alice, Progressed) # replicate n (alice, Progressed) @ [(alice, SequenceComplete)]"
    by (simp only: but_one replicate_Suc append_Cons)
  have tmo: "0 \<le> timeout" by (simp add: timeout_def second_def)
  show ?thesis
    by (simp only: knocks outs zero_count_granted_at_wrap [OF tmo n2])
qed

end
